theory Spec2Isabelle
  imports Complex_Main "HOL-Library.Word"
begin

section \<open>libdw: the flag registry and the test detectors of lib.c\<close>

text \<open>
  A shallow embedding of \<^verbatim>\<open>src/libdw/src/lib.c\<close> and of the structure
  \<^verbatim>\<open>dw_struct\<close> of \<^verbatim>\<open>libdw.h\<close>.

  \<^item> A C \<^verbatim>\<open>int\<close> is a HOL \<open>int\<close>; an arithmetic result outside
    \<open>[INT_MIN, INT_MAX]\<close> is undefined behaviour (\<open>c_int\<close>).
  \<^item> Undefined behaviour of the C program (a null or dangling pointer dereferenced, an
    index outside its array, an uninitialised element read, signed overflow, a division
    by zero) is the result \<open>Inl\<close> of a function; \<open>Inr\<close> carries the value of
    the \<^verbatim>\<open>return\<close> statement and the memory the call leaves. The one store whose
    index comes from the caller with only its upper bound tested, that of
    \<^verbatim>\<open>dw_set_flag_out\<close>, is followed as the machine performs it (\<open>arr_store\<close>).
  \<^item> The arrays the library allocates itself (\<^verbatim>\<open>flag_data\<close>,
    \<^verbatim>\<open>flag_data_ind\<close>, \<^verbatim>\<open>flag_product\<close>) are values of the structure:
    \<open>NullPtr\<close>, or \<open>Arr\<close> of the cells of the block. A cell is
    \<open>Indeterminate\<close> until it is assigned: \<^verbatim>\<open>malloc\<close> does not initialise.
    Whether \<^verbatim>\<open>malloc\<close> finds memory is the allocator's answer, an argument of the
    functions that call it.
  \<^item> The flag matrices belong to the caller; the registry only points to them. They live
    in a store that maps the address of a buffer to its bytes, so two slots that hold
    the same address share one matrix. A \<^verbatim>\<open>char *\<close> in a slot is the address of a
    whole buffer, and buffers at different addresses do not overlap.
  \<^item> A pointer field of the structure is \<^verbatim>\<open>NULL\<close> or a block the library allocated
    (the structure starts zeroed), so \<^verbatim>\<open>free\<close> is always defined. The arrays the
    caller passes to \<^verbatim>\<open>dw_set_flag_prod\<close> are lists of initialised values, and are
    not the tables the call frees.
  \<^item> The loops of \<^verbatim>\<open>dw_even_odd\<close> carry \<^verbatim>\<open>#pragma omp parallel for\<close>. Every
    iteration stores the constant 1 at cells fixed by its own indices, so the model runs
    the iterations in index order; lemma \<open>even_odd_cols_any_order\<close> shows that any
    other order of the stores leaves the same matrices. The elapsed time the function
    prints is not modelled.
\<close>

subsection \<open>C values\<close>

datatype ub = NullDeref | InvalidPointer | OutOfBounds | UninitRead | SignedOverflow | DivByZero

fun ub_bind :: "ub + 'a \<Rightarrow> ('a \<Rightarrow> ub + 'b) \<Rightarrow> ub + 'b" where
  "ub_bind (Inl e) f = Inl e"
| "ub_bind (Inr v) f = f v"

definition INT_MAX :: int where
  "INT_MAX = 2147483647"

definition INT_MIN :: int where
  "INT_MIN = - 2147483648"

definition c_int :: "int \<Rightarrow> ub + int" where
  "c_int x = (if INT_MIN \<le> x \<and> x \<le> INT_MAX then Inr x else Inl SignedOverflow)"

text \<open>C's \<^verbatim>\<open>%\<close> truncates towards zero: the result has the sign of the dividend.\<close>

definition c_mod :: "int \<Rightarrow> int \<Rightarrow> ub + int" where
  "c_mod a b =
     (if b = 0 then Inl DivByZero
      else if a = INT_MIN \<and> b = - 1 then Inl SignedOverflow
      else Inr (sgn a * (\<bar>a\<bar> mod \<bar>b\<bar>)))"

datatype cptr = Null | Addr nat

text \<open>
  A cell of a block \<^verbatim>\<open>malloc\<close> returned holds no defined value until the program
  assigns one: the block keeps whatever the memory held (garbage, null, a pointer an
  earlier array stored there), and the model does not say which.
\<close>

datatype 'a cell = Indeterminate | Init 'a

datatype 'a carray = NullPtr | Arr "'a cell list"

text \<open>
  \<^verbatim>\<open>a[i]\<close> read and \<^verbatim>\<open>a[i] = v\<close> for a library array, where the library chooses the
  index itself (the copy loops, the table reads of the detectors). The C code tests
  neither the pointer nor the index: a null pointer or an index outside the block is
  undefined behaviour, not a branch of the program, and so is the read of a cell that
  holds no defined value.
\<close>

fun arr_read :: "'a carray \<Rightarrow> int \<Rightarrow> ub + 'a" where
  "arr_read NullPtr i = Inl NullDeref"
| "arr_read (Arr xs) i =
     (if i < 0 \<or> int (length xs) \<le> i then Inl OutOfBounds
      else (case xs ! nat i of Indeterminate \<Rightarrow> Inl UninitRead | Init v \<Rightarrow> Inr v))"

fun arr_write :: "'a carray \<Rightarrow> int \<Rightarrow> 'a \<Rightarrow> ub + 'a carray" where
  "arr_write NullPtr i v = Inl NullDeref"
| "arr_write (Arr xs) i v =
     (if i < 0 \<or> int (length xs) \<le> i then Inl OutOfBounds
      else Inr (Arr (xs[nat i := Init v])))"


text \<open>
  \<^verbatim>\<open>malloc(n * sizeof(T))\<close> for an \<^verbatim>\<open>int n\<close>: a block of \<open>n\<close> uninitialised
  cells when the allocator satisfies the request, \<^verbatim>\<open>NULL\<close> when it does not. A negative
  \<open>n\<close> is converted to \<^verbatim>\<open>size_t\<close> (64 bits) before the multiplication and asks for
  more than any allocator gives.
\<close>

definition malloc :: "bool \<Rightarrow> int \<Rightarrow> 'a carray" where
  "malloc malloc_ok n =
     (if malloc_ok \<and> 0 \<le> n then Arr (replicate (nat n) Indeterminate) else NullPtr)"

text \<open>An array of the caller's, read by the library: \<^verbatim>\<open>src[i]\<close>.\<close>

fun src_read :: "int list \<Rightarrow> int \<Rightarrow> ub + int" where
  "src_read xs i = (if i < 0 \<or> int (length xs) \<le> i then Inl OutOfBounds else Inr (xs ! nat i))"

subsection \<open>The store of flag matrices\<close>

type_synonym byte = "8 word"

type_synonym mem = "nat \<Rightarrow> byte list option"

text \<open>\<^verbatim>\<open>p[i] = v\<close> for a pointer \<open>p\<close> to a flag matrix.\<close>

fun store :: "mem \<Rightarrow> cptr \<Rightarrow> int \<Rightarrow> byte \<Rightarrow> ub + mem" where
  "store h Null i v = Inl NullDeref"
| "store h (Addr a) i v =
     (case h a of
        None \<Rightarrow> Inl InvalidPointer
      | Some buf \<Rightarrow>
          if i < 0 \<or> int (length buf) \<le> i then Inl OutOfBounds
          else Inr (h(a \<mapsto> buf[nat i := v])))"

text \<open>The byte at offset \<open>j\<close> of the buffer at address \<open>a\<close>, when there is one.\<close>

definition cell_at :: "mem \<Rightarrow> nat \<Rightarrow> nat \<Rightarrow> byte option" where
  "cell_at h a j =
     (case h a of None \<Rightarrow> None | Some buf \<Rightarrow> if j < length buf then Some (buf ! j) else None)"

definition size_at :: "mem \<Rightarrow> nat \<Rightarrow> nat option" where
  "size_at h a = map_option length (h a)"

subsection \<open>dw\_struct\<close>

record dw_struct =
  data :: cptr
  rows :: int
  cols :: int
  flag_data :: "cptr carray"
  l_flag :: int
  flag_data_ind :: "int carray"
  flag_product :: "int carray"
  l_flag_prod :: int

subsection \<open>Common init functions\<close>

definition init_dw :: "dw_struct \<Rightarrow> cptr \<Rightarrow> int \<Rightarrow> int \<Rightarrow> int \<times> dw_struct" where
  "init_dw data_struct d r c = (0, data_struct\<lparr>data := d, rows := r, cols := c\<rparr>)"

text \<open>
  \<^verbatim>\<open>free(data_struct->flag_data)\<close> gives the old block back; the field then holds what
  \<^verbatim>\<open>malloc\<close> returns. The result of \<^verbatim>\<open>malloc\<close> is not tested.
\<close>

definition dw_alloc_flag_out :: "bool \<Rightarrow> dw_struct \<Rightarrow> int \<Rightarrow> int \<times> dw_struct" where
  "dw_alloc_flag_out malloc_ok data_struct n =
     (0, data_struct\<lparr>flag_data := malloc malloc_ok n, l_flag := n\<rparr>)"


text \<open>\<^verbatim>\<open>for (ii = 0; ii < n; ii++) dst[ii] = src[ii];\<close>\<close>

function copy_ints :: "int carray \<Rightarrow> int list \<Rightarrow> int \<Rightarrow> int \<Rightarrow> ub + int carray" where
  "copy_ints dst src ii n =
     (if ii < n then
        (case src_read src ii of
           Inl e \<Rightarrow> Inl e
         | Inr v \<Rightarrow>
            (case arr_write dst ii v of
               Inl e \<Rightarrow> Inl e
             | Inr dst' \<Rightarrow> copy_ints dst' src (ii + 1) n))
      else Inr dst)"
  by pat_completeness auto
termination
  by (relation "measure (\<lambda>(dst, src, ii, n). nat (n - ii))") auto

definition dw_set_flag_prod ::
  "bool \<Rightarrow> bool \<Rightarrow> dw_struct \<Rightarrow> int list \<Rightarrow> int \<Rightarrow> int list \<Rightarrow> ub + int \<times> dw_struct" where
  "dw_set_flag_prod malloc_ok1 malloc_ok2 data_struct fp n ind =
     (let s1 = data_struct\<lparr>flag_product := malloc malloc_ok1 n\<rparr> in
      ub_bind (copy_ints (flag_product s1) fp 0 n) (\<lambda>prod.
        let s2 = s1\<lparr>flag_product := prod, l_flag_prod := n\<rparr>;
            s3 = s2\<lparr>flag_data_ind := malloc malloc_ok2 (l_flag s2)\<rparr>
        in ub_bind (copy_ints (flag_data_ind s3) ind 0 (l_flag s3)) (\<lambda>labels.
             Inr (0, s3\<lparr>flag_data_ind := labels\<rparr>))))"

subsection \<open>RFI algorithms\<close>

text \<open>\<^verbatim>\<open>p[row * cols + col] = 1\<close> for the pointer \<open>p\<close> an expression evaluates to.\<close>

definition flag_cell :: "ub + cptr \<Rightarrow> int \<Rightarrow> int \<Rightarrow> int \<Rightarrow> mem \<Rightarrow> ub + mem" where
  "flag_cell ptr c row col h =
     ub_bind ptr (\<lambda>p.
     ub_bind (c_int (row * c)) (\<lambda>m.
     ub_bind (c_int (m + col)) (\<lambda>idx.
       store h p idx 1)))"

text \<open>
  The row loops of the two detectors differ only in the pointer expression. Both are
  instances of \<open>flag_rows\<close> (lemmas \<open>single_channel_rows_eq\<close> and
  \<open>even_odd_rows_eq\<close>), about which the loop facts are proved once.
\<close>

function flag_rows :: "ub + cptr \<Rightarrow> int \<Rightarrow> int \<Rightarrow> int \<Rightarrow> int \<Rightarrow> mem \<Rightarrow> ub + mem" where
  "flag_rows ptr c n col row h =
     (if row < n then
        (case flag_cell ptr c row col h of
           Inl e \<Rightarrow> Inl e
         | Inr h' \<Rightarrow> flag_rows ptr c n col (row + 1) h')
      else Inr h)"
  by pat_completeness auto
termination
  by (relation "measure (\<lambda>(ptr, c, n, col, row, h). nat (n - row))") auto

text \<open>
  \<^verbatim>\<open>for (row = 0; row < rows; row++) flag_data[0][row * cols + channel] = 1;\<close>
\<close>

function single_channel_rows :: "dw_struct \<Rightarrow> int \<Rightarrow> int \<Rightarrow> mem \<Rightarrow> ub + mem" where
  "single_channel_rows data_struct channel row h =
     (if row < rows data_struct then
        (case flag_cell (arr_read (flag_data data_struct) 0) (cols data_struct) row channel h of
           Inl e \<Rightarrow> Inl e
         | Inr h' \<Rightarrow> single_channel_rows data_struct channel (row + 1) h')
      else Inr h)"
  by pat_completeness auto
termination
  by (relation "measure (\<lambda>(s, channel, row, h). nat (rows s - row))") auto

definition dw_single_channel :: "dw_struct \<Rightarrow> int \<Rightarrow> mem \<Rightarrow> ub + int \<times> mem" where
  "dw_single_channel data_struct channel h =
     ub_bind (single_channel_rows data_struct channel 0 h) (\<lambda>h'. Inr (0, h'))"

text \<open>\<^verbatim>\<open>data_struct->flag_data[data_struct->flag_product[k]]\<close>\<close>

definition product_matrix :: "dw_struct \<Rightarrow> int \<Rightarrow> ub + cptr" where
  "product_matrix data_struct k =
     ub_bind (arr_read (flag_product data_struct) k) (arr_read (flag_data data_struct))"

text \<open>
  The inner loop of product \<open>k\<close>:
  \<^verbatim>\<open>for (row = 0; row < rows; row++) flag_data[flag_product[k]][row * cols + ii] = 1;\<close>
\<close>

function even_odd_rows :: "dw_struct \<Rightarrow> int \<Rightarrow> int \<Rightarrow> int \<Rightarrow> mem \<Rightarrow> ub + mem" where
  "even_odd_rows data_struct k ii row h =
     (if row < rows data_struct then
        (case flag_cell (product_matrix data_struct k) (cols data_struct) row ii h of
           Inl e \<Rightarrow> Inl e
         | Inr h' \<Rightarrow> even_odd_rows data_struct k ii (row + 1) h')
      else Inr h)"
  by pat_completeness auto
termination
  by (relation "measure (\<lambda>(s, k, ii, row, h). nat (rows s - row))") auto

text \<open>The outer loop: \<^verbatim>\<open>for (ii = start; ii < cols; ii += 2)\<close>.\<close>

function even_odd_cols :: "dw_struct \<Rightarrow> int \<Rightarrow> int \<Rightarrow> mem \<Rightarrow> ub + mem" where
  "even_odd_cols data_struct k ii h =
     (if ii < cols data_struct then
        (case even_odd_rows data_struct k ii 0 h of
           Inl e \<Rightarrow> Inl e
         | Inr h' \<Rightarrow>
            (case c_int (ii + 2) of
               Inl e \<Rightarrow> Inl e
             | Inr ii' \<Rightarrow> even_odd_cols data_struct k ii' h'))
      else Inr h)"
  by pat_completeness auto
termination
  by (relation "measure (\<lambda>(s, k, ii, h). nat (cols s - ii))")
    (auto simp: c_int_def split: if_splits)

text \<open>
  Product 0 is written from column 0 on, product 1 from column 1 on, each only when its
  entry of \<^verbatim>\<open>flag_product\<close> is greater than -1. \<^verbatim>\<open>channel_start\<close> is unused.
\<close>

definition dw_even_odd :: "dw_struct \<Rightarrow> real \<Rightarrow> mem \<Rightarrow> ub + int \<times> mem" where
  "dw_even_odd data_struct channel_start h =
     ub_bind (arr_read (flag_product data_struct) 0) (\<lambda>fp0.
     ub_bind (if fp0 > - 1 then even_odd_cols data_struct 0 0 h else Inr h) (\<lambda>h1.
     ub_bind (arr_read (flag_product data_struct) 1) (\<lambda>fp1.
     ub_bind (if fp1 > - 1 then even_odd_cols data_struct 1 1 h1 else Inr h1) (\<lambda>h2.
       Inr (0, h2)))))"

text \<open>
  The stores of one \<^verbatim>\<open>parallel for\<close>, as a list of cells \<open>(row, col)\<close> in the order
  in which the threads happen to perform them. Lemma \<open>even_odd_cols_any_order\<close> shows
  that every order leaves what the loop in index order leaves.
\<close>

fun flag_cells :: "ub + cptr \<Rightarrow> int \<Rightarrow> (int \<times> int) list \<Rightarrow> mem \<Rightarrow> ub + mem" where
  "flag_cells ptr c [] h = Inr h"
| "flag_cells ptr c (rc # ps) h =
     (case flag_cell ptr c (fst rc) (snd rc) h of
        Inl e \<Rightarrow> Inl e
      | Inr h' \<Rightarrow> flag_cells ptr c ps h')"

definition pass_stores :: "dw_struct \<Rightarrow> int \<Rightarrow> (int \<times> int) list" where
  "pass_stores s start =
     concat (map (\<lambda>i. map (\<lambda>r. (r, i)) [0..rows s - 1])
       (filter (\<lambda>i. even (i - start)) [start..cols s - 1]))"

subsection \<open>Util functions\<close>

text \<open>
  \<^verbatim>\<open>rand()\<close> belongs to the C library: \<open>rnd k\<close> is the value its \<open>k\<close>-th call
  returns during the call of \<^verbatim>\<open>bootstrap_resample\<close>, and \<open>rand_values\<close> is the
  library's promise about it. The \<^verbatim>\<open>int\<close> is converted to \<^verbatim>\<open>double\<close> on the
  assignment, which is exact for every \<^verbatim>\<open>int\<close>.
\<close>

definition rand_values :: "(nat \<Rightarrow> int) \<Rightarrow> bool" where
  "rand_values rnd = (\<forall>k. 0 \<le> rnd k \<and> rnd k \<le> INT_MAX)"

fun dbl_write :: "real list \<Rightarrow> int \<Rightarrow> real \<Rightarrow> ub + real list" where
  "dbl_write xs i v =
     (if i < 0 \<or> int (length xs) \<le> i then Inl OutOfBounds else Inr (xs[nat i := v]))"

function resample_loop ::
  "(nat \<Rightarrow> int) \<Rightarrow> int \<Rightarrow> real list \<Rightarrow> int \<Rightarrow> int \<Rightarrow> ub + real list" where
  "resample_loop rnd len_in x_out len_out ii =
     (if ii < len_out then
        (case c_mod (rnd (nat ii)) len_in of
           Inl e \<Rightarrow> Inl e
         | Inr v \<Rightarrow>
            (case dbl_write x_out ii (of_int v) of
               Inl e \<Rightarrow> Inl e
             | Inr x_out' \<Rightarrow> resample_loop rnd len_in x_out' len_out (ii + 1)))
      else Inr x_out)"
  by pat_completeness auto
termination
  by (relation "measure (\<lambda>(rnd, len_in, x_out, len_out, ii). nat (len_out - ii))") auto

definition bootstrap_resample ::
  "(nat \<Rightarrow> int) \<Rightarrow> real list \<Rightarrow> int \<Rightarrow> real list \<Rightarrow> int \<Rightarrow> ub + int \<times> real list" where
  "bootstrap_resample rnd x_in len_in x_out len_out =
     ub_bind (resample_loop rnd len_in x_out len_out 0) (\<lambda>x_out'. Inr (0, x_out'))"

subsection \<open>What the statements count\<close>

definition count_flagged :: "byte list \<Rightarrow> nat" where
  "count_flagged buf = length (filter (\<lambda>b. b = 1) buf)"

definition all_clear :: "byte list \<Rightarrow> bool" where
  "all_clear buf = list_all (\<lambda>b. b = 0) buf"

definition both_flagged :: "byte list \<Rightarrow> byte list \<Rightarrow> nat" where
  "both_flagged b0 b1 = length (filter (\<lambda>(x, y). x = 1 \<and> y = 1) (zip b0 b1))"

text \<open>
  Offset \<open>j\<close> of a matrix is a cell \<open>(r, i)\<close> of a column pass that starts at
  column \<open>start\<close> and steps by two; of the single column \<open>channel\<close>.
\<close>

definition pass_cell :: "dw_struct \<Rightarrow> int \<Rightarrow> nat \<Rightarrow> bool" where
  "pass_cell s start j =
     (\<exists>r\<in>{0..<rows s}. \<exists>i\<in>{start..<cols s}. even (i - start) \<and> int j = r * cols s + i)"

definition column_cell :: "dw_struct \<Rightarrow> int \<Rightarrow> nat \<Rightarrow> bool" where
  "column_cell s channel j = (\<exists>r\<in>{0..<rows s}. int j = r * cols s + channel)"

subsection \<open>A small context\<close>

text \<open>
  A 2 x 3 spectrogram with a registry of two slots, each holding its own matrix of six
  cells, and product \<open>k\<close> sent to slot \<open>k\<close>.
\<close>

definition ex_ctx :: dw_struct where
  "ex_ctx = \<lparr>data = Addr 1, rows = 2, cols = 3,
     flag_data = Arr [Init (Addr 10), Init (Addr 11)], l_flag = 2,
     flag_data_ind = Arr [Init 0, Init 1],
     flag_product = Arr [Init 0, Init 1], l_flag_prod = 2\<rparr>"

definition ex_mem :: mem where
  "ex_mem = [10 \<mapsto> [0, 0, 0, 0, 0, 0], 11 \<mapsto> [0, 0, 0, 0, 0, 0]]"

section \<open>Loop facts\<close>

lemma ub_bind_Inr_iff: "ub_bind m f = Inr r \<longleftrightarrow> (\<exists>v. m = Inr v \<and> f v = Inr r)"
  by (cases m) auto

declare flag_rows.simps [simp del] single_channel_rows.simps [simp del]
  even_odd_rows.simps [simp del] even_odd_cols.simps [simp del] copy_ints.simps [simp del]
  resample_loop.simps [simp del]

subsection \<open>Stores\<close>

text \<open>A store is determined by the sizes of its buffers and the bytes of their cells.\<close>

lemma buf_eqI:
  assumes "size_at g a = size_at h a" and "\<And>j. cell_at g a j = cell_at h a j"
  shows "g a = h a"
proof (cases "g a")
  case None
  with assms(1) show ?thesis by (simp add: size_at_def)
next
  case (Some u)
  with assms(1) obtain v where v: "h a = Some v" "length v = length u"
    by (cases "h a") (auto simp: size_at_def)
  have "u ! j = v ! j" if "j < length u" for j
    using assms(2) [of j] Some v that by (simp add: cell_at_def)
  with v Some show ?thesis by (simp add: list_eq_iff_nth_eq)
qed

lemma mem_eqI:
  assumes "\<And>a. size_at g a = size_at h a" and "\<And>a j. cell_at g a j = cell_at h a j"
  shows "g = h"
  by (rule ext) (rule buf_eqI [OF assms])

lemma flag_cell_Inr:
  assumes "flag_cell ptr c row col h = Inr h1"
  obtains a buf where "ptr = Inr (Addr a)" and "h a = Some buf"
    and "0 \<le> row * c + col" and "row * c + col < int (length buf)"
    and "h1 = h(a \<mapsto> buf[nat (row * c + col) := 1])"
proof -
  from assms obtain p where p: "ptr = Inr p"
    by (cases ptr) (auto simp: flag_cell_def)
  from assms p have st: "store h p (row * c + col) 1 = Inr h1"
    by (auto simp: flag_cell_def c_int_def ub_bind_Inr_iff split: if_splits)
  then obtain a where a: "p = Addr a" by (cases p) auto
  from st a obtain buf where "h a = Some buf" "0 \<le> row * c + col"
    "row * c + col < int (length buf)" "h1 = h(a \<mapsto> buf[nat (row * c + col) := 1])"
    by (auto split: option.splits if_splits)
  with p a that show thesis by blast
qed

lemma flag_cell_size:
  "flag_cell ptr c row col h = Inr h1 \<Longrightarrow> size_at h1 a = size_at h a"
  by (erule flag_cell_Inr) (auto simp: size_at_def)

lemma flag_cell_cell:
  "flag_cell ptr c row col h = Inr h1 \<Longrightarrow>
   cell_at h1 a j = (if ptr = Inr (Addr a) \<and> int j = row * c + col then Some 1 else cell_at h a j)"
  by (erule flag_cell_Inr) (auto simp: cell_at_def nth_list_update)

subsection \<open>The row loop\<close>

text \<open>
  A row loop that returns keeps every buffer's size, sets the cells of its column from
  its first row on to 1 in the buffer it points to, and changes no other cell. Whether it
  returns depends on the store only through the sizes of the buffers.
\<close>

lemma flag_rows_size:
  "flag_rows ptr c n col row h = Inr h' \<Longrightarrow> size_at h' a = size_at h a"
proof (induction ptr c n col row h rule: flag_rows.induct)
  case (1 ptr c n col row h)
  show ?case
  proof (cases "row < n")
    case True
    with "1.prems" obtain h1 where h1: "flag_cell ptr c row col h = Inr h1"
      and rest: "flag_rows ptr c n col (row + 1) h1 = Inr h'"
      by (subst (asm) flag_rows.simps) (auto split: sum.splits)
    from "1.IH" [OF True h1 rest] flag_cell_size [OF h1] show ?thesis by simp
  next
    case False
    with "1.prems" show ?thesis by (subst (asm) flag_rows.simps) simp
  qed
qed

lemma flag_rows_cell:
  "flag_rows ptr c n col row h = Inr h' \<Longrightarrow>
   cell_at h' a j =
     (if ptr = Inr (Addr a) \<and> (\<exists>r. row \<le> r \<and> r < n \<and> int j = r * c + col) then Some 1
      else cell_at h a j)"
proof (induction ptr c n col row h rule: flag_rows.induct)
  case (1 ptr c n col row h)
  show ?case
  proof (cases "row < n")
    case True
    with "1.prems" obtain h1 where h1: "flag_cell ptr c row col h = Inr h1"
      and rest: "flag_rows ptr c n col (row + 1) h1 = Inr h'"
      by (subst (asm) flag_rows.simps) (auto split: sum.splits)
    have split: "(\<exists>r. row \<le> r \<and> r < n \<and> int j = r * c + col) \<longleftrightarrow>
        int j = row * c + col \<or> (\<exists>r. row + 1 \<le> r \<and> r < n \<and> int j = r * c + col)"
      using True by (metis add1_zle_eq order_le_less)
    show ?thesis
      unfolding "1.IH" [OF True h1 rest] flag_cell_cell [OF h1] split by auto
  next
    case False
    with "1.prems" show ?thesis by (subst (asm) flag_rows.simps) auto
  qed
qed

lemma flag_rows_sizes_only:
  "flag_rows ptr c n col row h = Inr h' \<Longrightarrow> (\<And>a. size_at g a = size_at h a) \<Longrightarrow>
   \<exists>g'. flag_rows ptr c n col row g = Inr g'"
proof (induction ptr c n col row h arbitrary: g rule: flag_rows.induct)
  case (1 ptr c n col row h)
  show ?case
  proof (cases "row < n")
    case True
    with "1.prems" obtain h1 where h1: "flag_cell ptr c row col h = Inr h1"
      and rest: "flag_rows ptr c n col (row + 1) h1 = Inr h'"
      by (subst (asm) flag_rows.simps) (auto split: sum.splits)
    from h1 obtain a buf where ab: "ptr = Inr (Addr a)" "h a = Some buf"
      "0 \<le> row * c + col" "row * c + col < int (length buf)"
      by (rule flag_cell_Inr)
    from "1.prems"(2) [of a] ab obtain gb where gb: "g a = Some gb" "length gb = length buf"
      by (auto simp: size_at_def)
    from h1 have rng: "INT_MIN \<le> row * c" "row * c \<le> INT_MAX" "INT_MIN \<le> row * c + col" "row * c + col \<le> INT_MAX"
      by (auto simp: flag_cell_def ab c_int_def split: if_splits)
    define g1 where "g1 = g(a \<mapsto> gb[nat (row * c + col) := 1])"
    have g1: "flag_cell ptr c row col g = Inr g1"
      using ab gb rng by (simp add: flag_cell_def c_int_def g1_def)
    have "size_at g1 b = size_at h1 b" for b
      using flag_cell_size [OF g1, of b] flag_cell_size [OF h1, of b] "1.prems"(2) [of b] by simp
    from "1.IH" [OF True h1 rest this] obtain g' where "flag_rows ptr c n col (row + 1) g1 = Inr g'"
      by blast
    with True g1 show ?thesis by (subst flag_rows.simps) simp
  next
    case False
    then show ?thesis by (subst flag_rows.simps) simp
  qed
qed

lemma single_channel_rows_eq:
  "single_channel_rows s channel row h =
   flag_rows (arr_read (flag_data s) 0) (cols s) (rows s) channel row h"
proof (induction s channel row h rule: single_channel_rows.induct)
  case (1 s channel row h)
  show ?case
    by (subst single_channel_rows.simps, subst flag_rows.simps) (auto split: sum.splits simp: "1.IH")
qed

lemma even_odd_rows_eq:
  "even_odd_rows s k ii row h =
   flag_rows (product_matrix s k) (cols s) (rows s) ii row h"
proof (induction s k ii row h rule: even_odd_rows.induct)
  case (1 s k ii row h)
  show ?case
    by (subst even_odd_rows.simps, subst flag_rows.simps) (auto split: sum.splits simp: "1.IH")
qed

subsection \<open>The column loop\<close>

lemma even_odd_cols_step:
  assumes "even_odd_cols s k ii h = Inr h'" and "ii < cols s"
  obtains h1 where "flag_rows (product_matrix s k) (cols s) (rows s) ii 0 h = Inr h1"
    and "even_odd_cols s k (ii + 2) h1 = Inr h'" and "ii + 2 \<le> INT_MAX"
  using assms
  by (subst (asm) even_odd_cols.simps)
    (auto simp: even_odd_rows_eq c_int_def split: sum.splits if_splits)

lemma even_odd_cols_done:
  "\<not> ii < cols s \<Longrightarrow> even_odd_cols s k ii h = Inr h"
  by (subst even_odd_cols.simps) simp

lemma even_odd_cols_size:
  "even_odd_cols s k ii h = Inr h' \<Longrightarrow> size_at h' a = size_at h a"
proof (induction "nat (cols s - ii)" arbitrary: ii h rule: less_induct)
  case less
  show ?case
  proof (cases "ii < cols s")
    case True
    from less.prems True obtain h1 where
      h1: "flag_rows (product_matrix s k) (cols s) (rows s) ii 0 h = Inr h1"
      and rest: "even_odd_cols s k (ii + 2) h1 = Inr h'"
      by (rule even_odd_cols_step)
    have "nat (cols s - (ii + 2)) < nat (cols s - ii)" using True by simp
    from less.hyps [OF this rest] flag_rows_size [OF h1] show ?thesis by simp
  next
    case False
    with less.prems show ?thesis by (simp add: even_odd_cols_done)
  qed
qed

lemma pass_cellI:
  "0 \<le> r \<Longrightarrow> r < rows s \<Longrightarrow> start \<le> i \<Longrightarrow> i < cols s \<Longrightarrow> even (i - start) \<Longrightarrow>
   int j = r * cols s + i \<Longrightarrow> pass_cell s start j"
  unfolding pass_cell_def by (intro bexI [of _ r] bexI [of _ i]) simp_all

lemma pass_cellE:
  assumes "pass_cell s start j"
  obtains r i where "0 \<le> r" and "r < rows s" and "start \<le> i" and "i < cols s"
    and "even (i - start)" and "int j = r * cols s + i"
  using assms unfolding pass_cell_def by auto

lemma pass_cell_step:
  assumes "ii < cols s"
  shows "pass_cell s ii j \<longleftrightarrow>
    (\<exists>r. 0 \<le> r \<and> r < rows s \<and> int j = r * cols s + ii) \<or> pass_cell s (ii + 2) j"
proof
  assume "pass_cell s ii j"
  then obtain r i where ri: "0 \<le> r" "r < rows s" "ii \<le> i" "i < cols s" "even (i - ii)"
    "int j = r * cols s + i"
    by (rule pass_cellE)
  show "(\<exists>r. 0 \<le> r \<and> r < rows s \<and> int j = r * cols s + ii) \<or> pass_cell s (ii + 2) j"
  proof (cases "i = ii")
    case True
    with ri show ?thesis by blast
  next
    case False
    with ri have "ii + 2 \<le> i" by presburger
    moreover from ri have "even (i - (ii + 2))" by simp
    ultimately have "pass_cell s (ii + 2) j"
      using ri by (intro pass_cellI [of r s "ii + 2" i])
    then show ?thesis ..
  qed
next
  assume "(\<exists>r. 0 \<le> r \<and> r < rows s \<and> int j = r * cols s + ii) \<or> pass_cell s (ii + 2) j"
  then show "pass_cell s ii j"
  proof
    assume "\<exists>r. 0 \<le> r \<and> r < rows s \<and> int j = r * cols s + ii"
    then obtain r where "0 \<le> r" "r < rows s" "int j = r * cols s + ii" by blast
    with assms show ?thesis by (intro pass_cellI [of r s ii ii]) simp_all
  next
    assume "pass_cell s (ii + 2) j"
    then obtain r i where ri: "0 \<le> r" "r < rows s" "ii + 2 \<le> i" "i < cols s" "even (i - (ii + 2))"
      "int j = r * cols s + i"
      by (rule pass_cellE)
    then have "ii \<le> i" "even (i - ii)" by simp_all
    with ri show ?thesis by (intro pass_cellI [of r s ii i])
  qed
qed

lemma pass_cell_none: "\<not> ii < cols s \<Longrightarrow> \<not> pass_cell s ii j"
  by (auto simp: pass_cell_def)

lemma even_odd_cols_cell:
  "even_odd_cols s k ii h = Inr h' \<Longrightarrow>
   cell_at h' a j =
     (if product_matrix s k = Inr (Addr a) \<and> pass_cell s ii j then Some 1 else cell_at h a j)"
proof (induction "nat (cols s - ii)" arbitrary: ii h rule: less_induct)
  case less
  show ?case
  proof (cases "ii < cols s")
    case True
    from less.prems True obtain h1 where
      h1: "flag_rows (product_matrix s k) (cols s) (rows s) ii 0 h = Inr h1"
      and rest: "even_odd_cols s k (ii + 2) h1 = Inr h'"
      by (rule even_odd_cols_step)
    have "nat (cols s - (ii + 2)) < nat (cols s - ii)" using True by simp
    from less.hyps [OF this rest]
    have "cell_at h' a j =
      (if product_matrix s k = Inr (Addr a) \<and> pass_cell s (ii + 2) j then Some 1 else cell_at h1 a j)" .
    then show ?thesis
      unfolding flag_rows_cell [OF h1] pass_cell_step [OF True] by auto
  next
    case False
    with less.prems show ?thesis by (simp add: even_odd_cols_done pass_cell_none)
  qed
qed

lemma even_odd_cols_sizes_only:
  "even_odd_cols s k ii h = Inr h' \<Longrightarrow> (\<And>a. size_at g a = size_at h a) \<Longrightarrow>
   \<exists>g'. even_odd_cols s k ii g = Inr g'"
proof (induction "nat (cols s - ii)" arbitrary: ii h g rule: less_induct)
  case less
  show ?case
  proof (cases "ii < cols s")
    case True
    from less.prems(1) True obtain h1 where
      h1: "flag_rows (product_matrix s k) (cols s) (rows s) ii 0 h = Inr h1"
      and rest: "even_odd_cols s k (ii + 2) h1 = Inr h'" and rng: "ii + 2 \<le> INT_MAX"
      by (rule even_odd_cols_step)
    from flag_rows_sizes_only [OF h1 less.prems(2)] obtain g1 where
      g1: "flag_rows (product_matrix s k) (cols s) (rows s) ii 0 g = Inr g1" by blast
    have "size_at g1 b = size_at h1 b" for b
      using flag_rows_size [OF g1, of b] flag_rows_size [OF h1, of b] less.prems(2) [of b] by simp
    moreover have "nat (cols s - (ii + 2)) < nat (cols s - ii)" using True by simp
    ultimately obtain g' where g': "even_odd_cols s k (ii + 2) g1 = Inr g'"
      using less.hyps [OF _ rest] by blast
    have "INT_MIN \<le> ii + 2"
      using less.prems(1) True
      by (subst (asm) even_odd_cols.simps) (auto simp: c_int_def split: sum.splits if_splits)
    with True g1 g' rng show ?thesis
      by (subst even_odd_cols.simps) (simp add: even_odd_rows_eq c_int_def)
  next
    case False
    then show ?thesis by (simp add: even_odd_cols_done)
  qed
qed

subsection \<open>A call of dw\_even\_odd that returns\<close>

lemma dw_even_odd_Inr:
  assumes "dw_even_odd s cs h = Inr (rc, h')"
  obtains fp0 fp1 h1 where "arr_read (flag_product s) 0 = Inr fp0"
    and "arr_read (flag_product s) 1 = Inr fp1"
    and "(if fp0 > - 1 then even_odd_cols s 0 0 h else Inr h) = Inr h1"
    and "(if fp1 > - 1 then even_odd_cols s 1 1 h1 else Inr h1) = Inr h'"
    and "rc = 0"
  using assms unfolding dw_even_odd_def ub_bind_Inr_iff by auto

lemma dw_even_odd_size:
  assumes "dw_even_odd s cs h = Inr (rc, h')"
  shows "size_at h' a = size_at h a"
proof -
  from assms obtain fp0 fp1 h1 where
    "arr_read (flag_product s) 0 = Inr fp0" and "arr_read (flag_product s) 1 = Inr fp1"
    and p0: "(if fp0 > - 1 then even_odd_cols s 0 0 h else Inr h) = Inr h1"
    and p1: "(if fp1 > - 1 then even_odd_cols s 1 1 h1 else Inr h1) = Inr h'"
    and "rc = 0"
    by (rule dw_even_odd_Inr)
  from p0 have "size_at h1 a = size_at h a"
    by (auto simp: even_odd_cols_size split: if_splits)
  moreover from p1 have "size_at h' a = size_at h1 a"
    by (auto simp: even_odd_cols_size split: if_splits)
  ultimately show ?thesis by simp
qed

lemma dw_even_odd_cell:
  assumes "dw_even_odd s cs h = Inr (rc, h')"
    and "arr_read (flag_product s) 0 = Inr fp0" and "arr_read (flag_product s) 1 = Inr fp1"
  shows "cell_at h' a j =
    (if (fp0 > - 1 \<and> product_matrix s 0 = Inr (Addr a) \<and> pass_cell s 0 j) \<or>
        (fp1 > - 1 \<and> product_matrix s 1 = Inr (Addr a) \<and> pass_cell s 1 j)
     then Some 1 else cell_at h a j)"
proof -
  from assms obtain h1 where
    p0: "(if fp0 > - 1 then even_odd_cols s 0 0 h else Inr h) = Inr h1"
    and p1: "(if fp1 > - 1 then even_odd_cols s 1 1 h1 else Inr h1) = Inr h'"
    by (auto elim!: dw_even_odd_Inr)
  from p0 have c0: "cell_at h1 a j =
    (if fp0 > - 1 \<and> product_matrix s 0 = Inr (Addr a) \<and> pass_cell s 0 j then Some 1
     else cell_at h a j)"
    by (auto simp: even_odd_cols_cell split: if_splits)
  from p1 have c1: "cell_at h' a j =
    (if fp1 > - 1 \<and> product_matrix s 1 = Inr (Addr a) \<and> pass_cell s 1 j then Some 1
     else cell_at h1 a j)"
    by (auto simp: even_odd_cols_cell split: if_splits)
  show ?thesis unfolding c1 c0 by auto
qed

lemma dw_even_odd_sizes_only:
  assumes "dw_even_odd s cs h = Inr (rc, h')" and "\<And>a. size_at g a = size_at h a"
  shows "\<exists>g'. dw_even_odd s cs g = Inr (0, g')"
proof -
  from assms(1) obtain fp0 fp1 h1 where
    f0: "arr_read (flag_product s) 0 = Inr fp0" and f1: "arr_read (flag_product s) 1 = Inr fp1"
    and p0: "(if fp0 > - 1 then even_odd_cols s 0 0 h else Inr h) = Inr h1"
    and p1: "(if fp1 > - 1 then even_odd_cols s 1 1 h1 else Inr h1) = Inr h'"
    and "rc = 0"
    by (rule dw_even_odd_Inr)
  from p0 assms(2) obtain g1 where
    g1: "(if fp0 > - 1 then even_odd_cols s 0 0 g else Inr g) = Inr g1"
    using even_odd_cols_sizes_only [of s 0 0 h h1 g] by (auto split: if_splits)
  have sz: "size_at g1 b = size_at h1 b" for b
    using p0 g1 assms(2) [of b] even_odd_cols_size [of s 0 0 h h1 b] even_odd_cols_size [of s 0 0 g g1 b]
    by (auto split: if_splits)
  from p1 sz obtain g' where
    g': "(if fp1 > - 1 then even_odd_cols s 1 1 g1 else Inr g1) = Inr g'"
    using even_odd_cols_sizes_only [of s 1 1 h1 h' g1] by (auto split: if_splits)
  from f0 f1 g1 g' have "dw_even_odd s cs g = Inr (0, g')"
    by (simp add: dw_even_odd_def)
  then show ?thesis by blast
qed

lemma dw_even_odd_again:
  assumes "dw_even_odd s cs h = Inr (rc, h')"
  shows "dw_even_odd s cs h' = Inr (rc, h')"
proof -
  from assms obtain fp0 fp1 h1 where
    f0: "arr_read (flag_product s) 0 = Inr fp0" and f1: "arr_read (flag_product s) 1 = Inr fp1"
    and "(if fp0 > - 1 then even_odd_cols s 0 0 h else Inr h) = Inr h1"
    and "(if fp1 > - 1 then even_odd_cols s 1 1 h1 else Inr h1) = Inr h'"
    and rc: "rc = 0"
    by (rule dw_even_odd_Inr)
  have "size_at h' a = size_at h a" for a by (rule dw_even_odd_size [OF assms])
  from dw_even_odd_sizes_only [OF assms this] obtain g' where
    g': "dw_even_odd s cs h' = Inr (0, g')" by blast
  have "g' = h'"
  proof (rule mem_eqI)
    fix a show "size_at g' a = size_at h' a" by (rule dw_even_odd_size [OF g'])
  next
    fix a j show "cell_at g' a j = cell_at h' a j"
      unfolding dw_even_odd_cell [OF g' f0 f1] dw_even_odd_cell [OF assms f0 f1] by simp
  qed
  with g' rc show ?thesis by simp
qed

subsection \<open>A call of dw\_single\_channel that returns\<close>

lemma dw_single_channel_Inr:
  assumes "dw_single_channel s channel h = Inr (rc, h')"
  shows "flag_rows (arr_read (flag_data s) 0) (cols s) (rows s) channel 0 h = Inr h'" and "rc = 0"
  using assms unfolding dw_single_channel_def ub_bind_Inr_iff single_channel_rows_eq by auto

lemma column_cell_iff:
  "column_cell s channel j \<longleftrightarrow> (\<exists>r. 0 \<le> r \<and> r < rows s \<and> int j = r * cols s + channel)"
  unfolding column_cell_def by auto

lemma dw_single_channel_size:
  "dw_single_channel s channel h = Inr (rc, h') \<Longrightarrow> size_at h' a = size_at h a"
  by (drule dw_single_channel_Inr(1)) (rule flag_rows_size)

lemma dw_single_channel_cell:
  "dw_single_channel s channel h = Inr (rc, h') \<Longrightarrow>
   cell_at h' a j =
     (if arr_read (flag_data s) 0 = Inr (Addr a) \<and> column_cell s channel j then Some 1
      else cell_at h a j)"
  by (drule dw_single_channel_Inr(1)) (simp add: flag_rows_cell column_cell_iff)

lemma dw_single_channel_again:
  assumes "dw_single_channel s channel h = Inr (rc, h')"
  shows "dw_single_channel s channel h' = Inr (rc, h')"
proof -
  note run = dw_single_channel_Inr [OF assms]
  have "size_at h' a = size_at h a" for a by (rule dw_single_channel_size [OF assms])
  from flag_rows_sizes_only [OF run(1) this] obtain g' where
    "flag_rows (arr_read (flag_data s) 0) (cols s) (rows s) channel 0 h' = Inr g'" by blast
  then have g': "dw_single_channel s channel h' = Inr (0, g')"
    by (simp add: dw_single_channel_def single_channel_rows_eq)
  have "g' = h'"
  proof (rule mem_eqI)
    fix a show "size_at g' a = size_at h' a" by (rule dw_single_channel_size [OF g'])
  next
    fix a j show "cell_at g' a j = cell_at h' a j"
      unfolding dw_single_channel_cell [OF g'] dw_single_channel_cell [OF assms] by simp
  qed
  with g' run(2) show ?thesis by simp
qed

subsection \<open>The stores of a pass in any order\<close>

lemma flag_cell_sizes_only:
  assumes "flag_cell ptr c row col h = Inr h1" and "\<And>a. size_at g a = size_at h a"
  shows "\<exists>g1. flag_cell ptr c row col g = Inr g1"
proof -
  from assms(1) obtain a buf where ab: "ptr = Inr (Addr a)" "h a = Some buf"
    "0 \<le> row * c + col" "row * c + col < int (length buf)"
    by (rule flag_cell_Inr)
  from assms(2) [of a] ab obtain gb where gb: "g a = Some gb" "length gb = length buf"
    by (cases "g a") (auto simp: size_at_def)
  from assms(1) have "INT_MIN \<le> row * c" "row * c \<le> INT_MAX" "INT_MIN \<le> row * c + col"
    "row * c + col \<le> INT_MAX"
    by (auto simp: flag_cell_def ab c_int_def split: if_splits)
  with ab gb show ?thesis by (simp add: flag_cell_def c_int_def)
qed

lemma flag_cells_size:
  "flag_cells ptr c ps h = Inr h' \<Longrightarrow> size_at h' a = size_at h a"
proof (induction ps arbitrary: h)
  case Nil
  then show ?case by simp
next
  case (Cons rc ps)
  then obtain h1 where h1: "flag_cell ptr c (fst rc) (snd rc) h = Inr h1"
    and rest: "flag_cells ptr c ps h1 = Inr h'"
    by (auto split: sum.splits)
  from Cons.IH [OF rest] flag_cell_size [OF h1] show ?case by simp
qed

lemma flag_cells_cell:
  "flag_cells ptr c ps h = Inr h' \<Longrightarrow>
   cell_at h' a j =
     (if ptr = Inr (Addr a) \<and> (\<exists>rc\<in>set ps. int j = fst rc * c + snd rc) then Some 1
      else cell_at h a j)"
proof (induction ps arbitrary: h)
  case Nil
  then show ?case by simp
next
  case (Cons rc ps)
  then obtain h1 where h1: "flag_cell ptr c (fst rc) (snd rc) h = Inr h1"
    and rest: "flag_cells ptr c ps h1 = Inr h'"
    by (auto split: sum.splits)
  show ?case unfolding Cons.IH [OF rest] flag_cell_cell [OF h1] by auto
qed

lemma flag_cells_defined_iff:
  "(\<exists>h'. flag_cells ptr c ps h = Inr h') \<longleftrightarrow>
   (\<forall>rc\<in>set ps. \<exists>h1. flag_cell ptr c (fst rc) (snd rc) h = Inr h1)"
proof (induction ps arbitrary: h)
  case Nil
  show ?case by simp
next
  case (Cons rc ps)
  show ?case
  proof
    assume "\<exists>h'. flag_cells ptr c (rc # ps) h = Inr h'"
    then obtain h1 h' where h1: "flag_cell ptr c (fst rc) (snd rc) h = Inr h1"
      and rest: "flag_cells ptr c ps h1 = Inr h'"
      by (auto split: sum.splits)
    have "\<exists>g. flag_cell ptr c (fst x) (snd x) h = Inr g" if "x \<in> set ps" for x
    proof -
      from rest Cons.IH [of h1] that obtain g1 where
        "flag_cell ptr c (fst x) (snd x) h1 = Inr g1" by blast
      moreover have "size_at h b = size_at h1 b" for b using flag_cell_size [OF h1, of b] by simp
      ultimately show ?thesis by (rule flag_cell_sizes_only)
    qed
    with h1 show "\<forall>x\<in>set (rc # ps). \<exists>g. flag_cell ptr c (fst x) (snd x) h = Inr g" by auto
  next
    assume all: "\<forall>x\<in>set (rc # ps). \<exists>g. flag_cell ptr c (fst x) (snd x) h = Inr g"
    then obtain h1 where h1: "flag_cell ptr c (fst rc) (snd rc) h = Inr h1" by auto
    have "\<exists>g. flag_cell ptr c (fst x) (snd x) h1 = Inr g" if "x \<in> set ps" for x
    proof -
      from all that obtain g1 where "flag_cell ptr c (fst x) (snd x) h = Inr g1" by auto
      moreover have "size_at h1 b = size_at h b" for b by (rule flag_cell_size [OF h1])
      ultimately show ?thesis by (rule flag_cell_sizes_only)
    qed
    with Cons.IH [of h1] obtain h' where "flag_cells ptr c ps h1 = Inr h'" by blast
    with h1 show "\<exists>h'. flag_cells ptr c (rc # ps) h = Inr h'" by simp
  qed
qed

lemma flag_cells_order:
  assumes "flag_cells ptr c ps h = Inr h'" and "set qs = set ps"
  shows "flag_cells ptr c qs h = Inr h'"
proof -
  from assms(1) have "\<exists>h'. flag_cells ptr c ps h = Inr h'" by blast
  then have "\<exists>g'. flag_cells ptr c qs h = Inr g'"
    unfolding flag_cells_defined_iff assms(2) .
  then obtain g' where g': "flag_cells ptr c qs h = Inr g'" ..
  have "g' = h'"
  proof (rule mem_eqI)
    fix a show "size_at g' a = size_at h' a"
      using flag_cells_size [OF g', of a] flag_cells_size [OF assms(1), of a] by simp
  next
    fix a j show "cell_at g' a j = cell_at h' a j"
      unfolding flag_cells_cell [OF g'] flag_cells_cell [OF assms(1)] assms(2) ..
  qed
  with g' show ?thesis by simp
qed

lemma flag_cells_append:
  "flag_cells ptr c (ps @ qs) h = ub_bind (flag_cells ptr c ps h) (flag_cells ptr c qs)"
  by (induction ps arbitrary: h) (auto split: sum.splits)

lemma flag_rows_eq_cells:
  "flag_rows ptr c n col row h = flag_cells ptr c (map (\<lambda>r. (r, col)) [row..n - 1]) h"
proof (induction ptr c n col row h rule: flag_rows.induct)
  case (1 ptr c n col row h)
  show ?case
  proof (cases "row < n")
    case True
    then have "[row..n - 1] = row # [row + 1..n - 1]" by (simp add: upto_rec1)
    with True "1.IH" show ?thesis
      by (subst flag_rows.simps) (auto split: sum.splits)
  next
    case False
    then show ?thesis by (subst flag_rows.simps) simp
  qed
qed

lemma pass_columns_step:
  assumes "ii < c"
  shows "filter (\<lambda>i. even (i - ii)) [ii..c - 1] =
    ii # filter (\<lambda>i. even (i - (ii + 2))) [ii + 2..c - 1]"
proof -
  from assms have "[ii..c - 1] = ii # [ii + 1..c - 1]" by (simp add: upto_rec1)
  moreover have "filter (\<lambda>i. even (i - ii)) [ii + 1..c - 1] =
      filter (\<lambda>i. even (i - (ii + 2))) [ii + 2..c - 1]"
  proof (cases "ii + 1 < c")
    case True
    then have "[ii + 1..c - 1] = (ii + 1) # [ii + 2..c - 1]"
      by (simp add: upto_rec1 [of "ii + 1"] add.assoc)
    then show ?thesis by simp
  next
    case False
    then show ?thesis by simp
  qed
  ultimately show ?thesis by simp
qed

lemma even_odd_cols_eq_cells:
  "even_odd_cols s k ii h = Inr h' \<Longrightarrow>
   flag_cells (product_matrix s k) (cols s) (pass_stores s ii) h = Inr h'"
proof (induction "nat (cols s - ii)" arbitrary: ii h rule: less_induct)
  case less
  show ?case
  proof (cases "ii < cols s")
    case True
    from less.prems True obtain h1 where
      h1: "flag_rows (product_matrix s k) (cols s) (rows s) ii 0 h = Inr h1"
      and rest: "even_odd_cols s k (ii + 2) h1 = Inr h'"
      by (rule even_odd_cols_step)
    have "nat (cols s - (ii + 2)) < nat (cols s - ii)" using True by simp
    from less.hyps [OF this rest]
    have "flag_cells (product_matrix s k) (cols s) (pass_stores s (ii + 2)) h1 = Inr h'" .
    moreover have "pass_stores s ii = map (\<lambda>r. (r, ii)) [0..rows s - 1] @ pass_stores s (ii + 2)"
      unfolding pass_stores_def pass_columns_step [OF True] by simp
    ultimately show ?thesis
      using h1 by (simp add: flag_cells_append flag_rows_eq_cells)
  next
    case False
    with less.prems show ?thesis by (simp add: even_odd_cols_done pass_stores_def)
  qed
qed

text \<open>
  A pass of \<^verbatim>\<open>dw_even_odd\<close> that returns leaves the same store when its stores are
  performed in any other order, each any number of times.
\<close>

lemma even_odd_cols_any_order:
  assumes "even_odd_cols s k ii h = Inr h'" and "set ps = set (pass_stores s ii)"
  shows "flag_cells (product_matrix s k) (cols s) ps h = Inr h'"
  by (rule flag_cells_order [OF even_odd_cols_eq_cells [OF assms(1)] assms(2)])

section \<open>Counting the flagged cells\<close>

lemma count_flagged_card: "count_flagged buf = card {j. j < length buf \<and> buf ! j = 1}"
  unfolding count_flagged_def by (rule length_filter_conv_card)

lemma offset_inj:
  fixes c :: int
  assumes "r * c + i = r' * c + i'" and "0 \<le> i" and "i < c" and "0 \<le> i'" and "i' < c"
  shows "r = r' \<and> i = i'"
proof -
  have d: "(q * c + k) div c = q" if "0 \<le> k" and "k < c" for q k
    using that by simp
  from assms(1) have "(r * c + i) div c = (r' * c + i') div c" by (rule arg_cong)
  then have "r = r'"
    unfolding d [OF assms(2,3)] d [OF assms(4,5)] .
  with assms(1) show ?thesis by simp
qed

lemma pass_cell_image:
  assumes "0 \<le> start"
  shows "{j. pass_cell s start j} =
    (\<lambda>(r, i). nat (r * cols s + i)) ` ({0..<rows s} \<times> {i \<in> {start..<cols s}. even (i - start)})"
proof (intro set_eqI iffI)
  fix j
  assume "j \<in> {j. pass_cell s start j}"
  then obtain r i where ri: "0 \<le> r" "r < rows s" "start \<le> i" "i < cols s" "even (i - start)"
    "int j = r * cols s + i"
    by (auto elim: pass_cellE)
  then have "j = nat (r * cols s + i)" by simp
  with ri show "j \<in> (\<lambda>(r, i). nat (r * cols s + i)) `
      ({0..<rows s} \<times> {i \<in> {start..<cols s}. even (i - start)})"
    by (intro image_eqI [of _ _ "(r, i)"]) auto
next
  fix j
  assume "j \<in> (\<lambda>(r, i). nat (r * cols s + i)) `
      ({0..<rows s} \<times> {i \<in> {start..<cols s}. even (i - start)})"
  then obtain r i where ri: "0 \<le> r" "r < rows s" "start \<le> i" "i < cols s" "even (i - start)"
    "j = nat (r * cols s + i)"
    by auto
  with assms have "0 \<le> r * cols s + i" by simp
  with ri have "int j = r * cols s + i" by simp
  with ri show "j \<in> {j. pass_cell s start j}" by (auto intro: pass_cellI)
qed

lemma offset_inj_on:
  assumes "0 \<le> start"
  shows "inj_on (\<lambda>(r, i). nat (r * cols s + i))
    ({0..<rows s} \<times> {i \<in> {start..<cols s}. even (i - start)})"
proof (rule inj_onI, clarify)
  fix r i r' i'
  assume a: "r \<in> {0..<rows s}" "i \<in> {start..<cols s}" "r' \<in> {0..<rows s}" "i' \<in> {start..<cols s}"
    and eq: "nat (r * cols s + i) = nat (r' * cols s + i')"
  from a assms have "0 \<le> r * cols s + i" "0 \<le> r' * cols s + i'" by simp_all
  with eq have "r * cols s + i = r' * cols s + i'" by simp
  from offset_inj [OF this] a assms show "r = r' \<and> i = i'" by simp
qed

lemma card_even_from_0:
  assumes "0 \<le> (c :: int)"
  shows "card {i \<in> {0..<c}. even (i - 0)} = nat ((c + 1) div 2)"
proof -
  have "{i \<in> {0..<c}. even (i - 0)} = (\<lambda>k. 2 * k) ` {0..<(c + 1) div 2}"
  proof (intro set_eqI iffI)
    fix i assume "i \<in> {i \<in> {0..<c}. even (i - 0)}"
    then have "i = 2 * (i div 2)" "0 \<le> i div 2" "i div 2 < (c + 1) div 2" by auto
    then show "i \<in> (\<lambda>k. 2 * k) ` {0..<(c + 1) div 2}" by (intro image_eqI [of _ _ "i div 2"]) auto
  next
    fix i assume "i \<in> (\<lambda>k. 2 * k) ` {0..<(c + 1) div 2}"
    then show "i \<in> {i \<in> {0..<c}. even (i - 0)}" by auto
  qed
  moreover have "inj_on (\<lambda>k :: int. 2 * k) {0..<(c + 1) div 2}" by (rule inj_onI) simp
  ultimately show ?thesis by (simp add: card_image)
qed

lemma card_even_from_1:
  assumes "0 \<le> (c :: int)"
  shows "card {i \<in> {1..<c}. even (i - 1)} = nat (c div 2)"
proof -
  have "{i \<in> {1..<c}. even (i - 1)} = (\<lambda>k. 2 * k + 1) ` {0..<c div 2}"
  proof (intro set_eqI iffI)
    fix i assume "i \<in> {i \<in> {1..<c}. even (i - 1)}"
    then have "1 \<le> i" "i < c" "odd i" by auto
    then have "i = 2 * (i div 2) + 1" "0 \<le> i div 2" "i div 2 < c div 2" by presburger+
    then show "i \<in> (\<lambda>k. 2 * k + 1) ` {0..<c div 2}" by (intro image_eqI [of _ _ "i div 2"]) auto
  next
    fix i assume "i \<in> (\<lambda>k. 2 * k + 1) ` {0..<c div 2}"
    then show "i \<in> {i \<in> {1..<c}. even (i - 1)}" by auto
  qed
  moreover have "inj_on (\<lambda>k :: int. 2 * k + 1) {0..<c div 2}" by (rule inj_onI) simp
  ultimately show ?thesis by (simp add: card_image)
qed

lemma card_pass_cell:
  assumes "0 \<le> start"
  shows "card {j. pass_cell s start j} =
    nat (rows s) * card {i \<in> {start..<cols s}. even (i - start)}"
proof -
  have "card {j. pass_cell s start j} =
      card ({0..<rows s} \<times> {i \<in> {start..<cols s}. even (i - start)})"
    unfolding pass_cell_image [OF assms] by (rule card_image [OF offset_inj_on [OF assms]])
  also have "\<dots> = card {0..<rows s} * card {i \<in> {start..<cols s}. even (i - start)}"
    by (rule card_cartesian_product)
  finally show ?thesis by simp
qed

lemma pass_cells_disjoint: "pass_cell s 0 j \<Longrightarrow> pass_cell s 1 j \<Longrightarrow> False"
proof -
  assume "pass_cell s 0 j" and "pass_cell s 1 j"
  then obtain r i r' i' where "0 \<le> i" "i < cols s" "even (i - 0)" "int j = r * cols s + i"
    and "1 \<le> i'" "i' < cols s" "even (i' - 1)" "int j = r' * cols s + i'"
    by (elim pass_cellE) blast
  moreover from this have "r = r' \<and> i = i'" by (intro offset_inj) simp_all
  ultimately show False by simp
qed

lemma flagged_matrix:
  assumes "size_at h' a = size_at h a"
    and "\<And>j. cell_at h' a j = (if P j then Some 1 else cell_at h a j)"
    and "h a = Some b" and "all_clear b"
  obtains c where "h' a = Some c" and "length c = length b"
    and "\<forall>j. j < length c \<and> c ! j = 1 \<longleftrightarrow> P j"
proof -
  from assms(1,3) obtain c where c: "h' a = Some c" "length c = length b"
    by (cases "h' a") (auto simp: size_at_def)
  have "j < length c \<and> c ! j = 1 \<longleftrightarrow> P j" for j
  proof (cases "P j")
    case True
    with assms(2) [of j] c show ?thesis by (auto simp: cell_at_def split: if_splits)
  next
    case False
    have "b ! j = 0" if "j < length b"
      using assms(4) that by (simp add: all_clear_def list_all_length)
    with False assms(2) [of j] assms(3) c show ?thesis
      by (auto simp: cell_at_def split: if_splits)
  qed
  with c that show thesis by blast
qed

section \<open>When the detectors are defined\<close>

text \<open>
  A matrix of \<open>rows * cols\<close> cells, with \<open>rows * cols\<close> an \<^verbatim>\<open>int\<close>, takes every
  store of a column inside its bounds.
\<close>

lemma offset_bounds:
  fixes c :: int
  assumes "0 \<le> r" and "r < n" and "0 \<le> col" and "col < c"
  shows "0 \<le> r * c" and "r * c + col < n * c"
proof -
  from assms show "0 \<le> r * c" by simp
  from assms have "r + 1 \<le> n" "0 \<le> c" by simp_all
  then have "(r + 1) * c \<le> n * c" by (rule mult_right_mono)
  with assms show "r * c + col < n * c" by (simp add: algebra_simps)
qed

lemma flag_rows_defined:
  assumes "ptr = Inr (Addr a)" and "size_at h a = Some len"
    and "0 \<le> row" and "0 \<le> col" and "col < c"
    and "n * c \<le> int len" and "n * c \<le> INT_MAX"
  shows "\<exists>h'. flag_rows ptr c n col row h = Inr h'"
  using assms
proof (induction ptr c n col row h rule: flag_rows.induct)
  case (1 ptr c n col row h)
  show ?case
  proof (cases "row < n")
    case True
    from "1.prems" obtain buf where buf: "h a = Some buf" "length buf = len"
      by (cases "h a") (auto simp: size_at_def)
    from offset_bounds [OF "1.prems"(3) True "1.prems"(4,5)] "1.prems"
    have rng: "0 \<le> row * c" "row * c + col < n * c" "0 \<le> row * c + col" by simp_all
    with "1.prems" have "row * c \<le> INT_MAX" "row * c + col \<le> INT_MAX"
      "row * c + col < int (length buf)"
      using buf by simp_all
    with rng buf "1.prems"(1) have h1:
      "flag_cell ptr c row col h = Inr (h(a \<mapsto> buf[nat (row * c + col) := 1]))"
      by (simp add: flag_cell_def c_int_def INT_MIN_def)
    have sz: "size_at (h(a \<mapsto> buf[nat (row * c + col) := 1])) a = Some len"
      using buf by (simp add: size_at_def)
    have nxt: "0 \<le> row + 1" using "1.prems"(3) by simp
    from "1.IH" [OF True h1 "1.prems"(1) sz nxt "1.prems"(4,5,6,7)] obtain h' where
      "flag_rows ptr c n col (row + 1) (h(a \<mapsto> buf[nat (row * c + col) := 1])) = Inr h'"
      by blast
    with True h1 show ?thesis by (subst flag_rows.simps) simp
  next
    case False
    then show ?thesis by (subst flag_rows.simps) simp
  qed
qed

lemma even_odd_cols_defined:
  assumes "product_matrix s k = Inr (Addr a)" and "size_at h a = Some len"
    and "0 \<le> ii" and "rows s * cols s \<le> int len" and "rows s * cols s \<le> INT_MAX"
    and "cols s < INT_MAX"
  shows "\<exists>h'. even_odd_cols s k ii h = Inr h'"
  using assms(2,3)
proof (induction "nat (cols s - ii)" arbitrary: ii h rule: less_induct)
  case less
  show ?case
  proof (cases "ii < cols s")
    case True
    from flag_rows_defined [OF assms(1) less.prems(1) _ less.prems(2) True assms(4,5)]
    obtain h1 where h1: "flag_rows (product_matrix s k) (cols s) (rows s) ii 0 h = Inr h1"
      by auto
    have "size_at h1 a = Some len" using flag_rows_size [OF h1, of a] less.prems(1) by simp
    moreover have "nat (cols s - (ii + 2)) < nat (cols s - ii)" using True by simp
    ultimately obtain h' where "even_odd_cols s k (ii + 2) h1 = Inr h'"
      using less.hyps [of "ii + 2" h1] less.prems(2) by auto
    moreover have "INT_MIN \<le> ii + 2" "ii + 2 \<le> INT_MAX"
      using less.prems(2) True assms(6) by (simp_all add: INT_MIN_def)
    ultimately show ?thesis
      using True h1 by (subst even_odd_cols.simps) (simp add: even_odd_rows_eq c_int_def)
  next
    case False
    then show ?thesis by (simp add: even_odd_cols_done)
  qed
qed

text \<open>
  \<^verbatim>\<open>dw_even_odd\<close> runs to its \<^verbatim>\<open>return 0\<close> when the product table has its two
  entries, every active product points through its slot to a buffer of at least
  \<open>rows * cols\<close> cells, \<open>rows * cols\<close> is an \<^verbatim>\<open>int\<close> and \<open>cols + 1\<close> is one too.
\<close>

lemma dw_even_odd_defined:
  assumes "0 \<le> rows s" and "0 \<le> cols s" and "cols s < INT_MAX"
    and "rows s * cols s \<le> INT_MAX"
    and "arr_read (flag_product s) 0 = Inr fp0" and "arr_read (flag_product s) 1 = Inr fp1"
    and "fp0 > - 1 \<Longrightarrow> \<exists>a len. arr_read (flag_data s) fp0 = Inr (Addr a) \<and>
           size_at h a = Some len \<and> rows s * cols s \<le> int len"
    and "fp1 > - 1 \<Longrightarrow> \<exists>a len. arr_read (flag_data s) fp1 = Inr (Addr a) \<and>
           size_at h a = Some len \<and> rows s * cols s \<le> int len"
  shows "\<exists>h'. dw_even_odd s cs h = Inr (0, h')"
proof -
  have "\<exists>h1. (if fp0 > - 1 then even_odd_cols s 0 0 h else Inr h) = Inr h1"
  proof (cases "fp0 > - 1")
    case True
    with assms(7) obtain a len where "arr_read (flag_data s) fp0 = Inr (Addr a)"
      "size_at h a = Some len" "rows s * cols s \<le> int len" by blast
    with assms(5) have "product_matrix s 0 = Inr (Addr a)" by (simp add: product_matrix_def)
    from even_odd_cols_defined [OF this \<open>size_at h a = Some len\<close> _ \<open>rows s * cols s \<le> int len\<close>
        assms(4,3)] True
    show ?thesis by simp
  next
    case False
    then show ?thesis by simp
  qed
  then obtain h1 where h1: "(if fp0 > - 1 then even_odd_cols s 0 0 h else Inr h) = Inr h1" ..
  have sz: "size_at h1 a = size_at h a" for a
    using h1 even_odd_cols_size [of s 0 0 h h1 a] by (auto split: if_splits)
  have "\<exists>h2. (if fp1 > - 1 then even_odd_cols s 1 1 h1 else Inr h1) = Inr h2"
  proof (cases "fp1 > - 1")
    case True
    with assms(8) obtain a len where "arr_read (flag_data s) fp1 = Inr (Addr a)"
      "size_at h a = Some len" "rows s * cols s \<le> int len" by blast
    with assms(6) have pm: "product_matrix s 1 = Inr (Addr a)" by (simp add: product_matrix_def)
    have "size_at h1 a = Some len" using sz [of a] \<open>size_at h a = Some len\<close> by simp
    from even_odd_cols_defined [OF pm this _ \<open>rows s * cols s \<le> int len\<close> assms(4,3)] True
    show ?thesis by simp
  next
    case False
    then show ?thesis by simp
  qed
  then obtain h2 where "(if fp1 > - 1 then even_odd_cols s 1 1 h1 else Inr h1) = Inr h2" ..
  with h1 assms(5,6) have "dw_even_odd s cs h = Inr (0, h2)" by (simp add: dw_even_odd_def)
  then show ?thesis by blast
qed

lemma dw_single_channel_defined:
  assumes "0 \<le> channel" and "channel < cols s" and "rows s * cols s \<le> INT_MAX"
    and "arr_read (flag_data s) 0 = Inr (Addr a)" and "size_at h a = Some len"
    and "rows s * cols s \<le> int len"
  shows "\<exists>h'. dw_single_channel s channel h = Inr (0, h')"
proof -
  from flag_rows_defined [OF assms(4,5) _ assms(1,2,6,3)] obtain h' where
    "flag_rows (arr_read (flag_data s) 0) (cols s) (rows s) channel 0 h = Inr h'" by auto
  then have "dw_single_channel s channel h = Inr (0, h')"
    by (simp add: dw_single_channel_def single_channel_rows_eq)
  then show ?thesis by blast
qed

section \<open>The example runs\<close>

lemmas loop_simps = flag_rows.simps single_channel_rows.simps even_odd_rows.simps
  even_odd_cols.simps copy_ints.simps resample_loop.simps

lemmas run_simps = loop_simps dw_even_odd_def dw_single_channel_def flag_cell_def
  product_matrix_def c_int_def INT_MAX_def INT_MIN_def ex_ctx_def

lemma ex_mem_10: "ex_mem 10 = Some [0, 0, 0, 0, 0, 0]"
  by (simp add: ex_mem_def)

lemma ex_mem_11: "ex_mem 11 = Some [0, 0, 0, 0, 0, 0]"
  by (simp add: ex_mem_def)

lemma ex_single_channel:
  "dw_single_channel ex_ctx 1 ex_mem = Inr (0, ex_mem(10 \<mapsto> [0, 1, 0, 0, 1, 0]))"
  by (simp add: run_simps ex_mem_10)

lemma ex_even_odd:
  "dw_even_odd ex_ctx 0 ex_mem =
   Inr (0, ex_mem(10 \<mapsto> [1, 0, 1, 1, 0, 1], 11 \<mapsto> [0, 1, 0, 0, 1, 0]))"
  by (simp add: run_simps ex_mem_10 ex_mem_11)

lemma ex_even_only:
  "dw_even_odd (ex_ctx\<lparr>flag_product := Arr [Init (- 1), Init 0]\<rparr>) 0 ex_mem =
   Inr (0, ex_mem(10 \<mapsto> [0, 1, 0, 0, 1, 0]))"
  by (simp add: run_simps ex_mem_10)

lemma ex_odd_only:
  "dw_even_odd (ex_ctx\<lparr>flag_product := Arr [Init 1, Init (- 1)]\<rparr>) 0 ex_mem =
   Inr (0, ex_mem(11 \<mapsto> [1, 0, 1, 1, 0, 1]))"
  by (simp add: run_simps ex_mem_11)

section \<open>The context and the registry\<close>

text \<open>
  C8. \<^verbatim>\<open>init_dw\<close> returns 0 for every input and stores its three arguments in the
  fields \<^verbatim>\<open>data\<close>, \<^verbatim>\<open>rows\<close> and \<^verbatim>\<open>cols\<close> as they are given (the pointer, not a
  copy of the buffer; no value is tested); the fields \<^verbatim>\<open>flag_data\<close>, \<^verbatim>\<open>l_flag\<close>,
  \<^verbatim>\<open>flag_data_ind\<close>, \<^verbatim>\<open>flag_product\<close> and \<^verbatim>\<open>l_flag_prod\<close> keep their values.
\<close>

theorem init_dw_stores_three_fields:
  "fst (init_dw s d r c) = 0 \<and>
   data (snd (init_dw s d r c)) = d \<and>
   rows (snd (init_dw s d r c)) = r \<and>
   cols (snd (init_dw s d r c)) = c \<and>
   flag_data (snd (init_dw s d r c)) = flag_data s \<and>
   l_flag (snd (init_dw s d r c)) = l_flag s \<and>
   flag_data_ind (snd (init_dw s d r c)) = flag_data_ind s \<and>
   flag_product (snd (init_dw s d r c)) = flag_product s \<and>
   l_flag_prod (snd (init_dw s d r c)) = l_flag_prod s"
  by (simp add: init_dw_def)

text \<open>
  C2, as the claim states it, fails: \<^verbatim>\<open>malloc\<close> does not initialise the block it
  returns, and nothing stores null into it. The registry below holds two matrices; after
  \<^verbatim>\<open>dw_alloc_flag_out\<close> with \<open>l_flag = 2\<close> and the allocation satisfied, reading
  slot 0 is a read of an uninitialised cell.
\<close>

theorem dw_alloc_flag_out_slot_counterexample:
  "arr_read (flag_data ex_ctx) 0 = Inr (Addr 10) \<and>
   l_flag (snd (dw_alloc_flag_out True ex_ctx 2)) = 2 \<and>
   arr_read (flag_data (snd (dw_alloc_flag_out True ex_ctx 2))) 0 = Inl UninitRead \<and>
   arr_read (flag_data (snd (dw_alloc_flag_out True ex_ctx 2))) 0 \<noteq> Inr Null"
  by (simp add: dw_alloc_flag_out_def malloc_def ex_ctx_def eval_nat_numeral)

text \<open>
  C2, amended. For every input \<^verbatim>\<open>dw_alloc_flag_out\<close> returns 0, sets \<^verbatim>\<open>l_flag\<close> to
  its argument and leaves every field but \<^verbatim>\<open>flag_data\<close> and \<^verbatim>\<open>l_flag\<close> as it was.
  When \<open>l_flag \<ge> 0\<close> and the allocation is satisfied, \<^verbatim>\<open>flag_data\<close> is then a block of
  exactly \<open>l_flag\<close> slots, every one of them uninitialised: its content is
  indeterminate (anything the block held, a stale reference or null included), so no slot
  is known to read back as unset before \<^verbatim>\<open>dw_set_flag_out\<close> has stored into it. When
  \<open>l_flag < 0\<close> or the allocation fails, \<^verbatim>\<open>flag_data\<close> is \<^verbatim>\<open>NULL\<close>.
\<close>

theorem dw_alloc_flag_out_slots_indeterminate:
  "fst (dw_alloc_flag_out malloc_ok s n) = 0 \<and>
   l_flag (snd (dw_alloc_flag_out malloc_ok s n)) = n \<and>
   (malloc_ok \<and> 0 \<le> n \<longrightarrow>
      (\<exists>xs. flag_data (snd (dw_alloc_flag_out malloc_ok s n)) = Arr xs \<and>
         int (length xs) = n \<and> (\<forall>x\<in>set xs. x = Indeterminate)) \<and>
      (\<forall>i. 0 \<le> i \<and> i < n \<longrightarrow>
         arr_read (flag_data (snd (dw_alloc_flag_out malloc_ok s n))) i = Inl UninitRead)) \<and>
   (\<not> malloc_ok \<or> n < 0 \<longrightarrow>
      flag_data (snd (dw_alloc_flag_out malloc_ok s n)) = NullPtr) \<and>
   data (snd (dw_alloc_flag_out malloc_ok s n)) = data s \<and>
   rows (snd (dw_alloc_flag_out malloc_ok s n)) = rows s \<and>
   cols (snd (dw_alloc_flag_out malloc_ok s n)) = cols s \<and>
   flag_data_ind (snd (dw_alloc_flag_out malloc_ok s n)) = flag_data_ind s \<and>
   flag_product (snd (dw_alloc_flag_out malloc_ok s n)) = flag_product s \<and>
   l_flag_prod (snd (dw_alloc_flag_out malloc_ok s n)) = l_flag_prod s"
  by (auto simp: dw_alloc_flag_out_def malloc_def)

theorem dw_alloc_flag_out_slots_indeterminate_witness:
  "fst (dw_alloc_flag_out True ex_ctx 2) = 0 \<and>
   l_flag (snd (dw_alloc_flag_out True ex_ctx 2)) = 2 \<and>
   flag_data (snd (dw_alloc_flag_out True ex_ctx 2)) = Arr [Indeterminate, Indeterminate] \<and>
   arr_read (flag_data (snd (dw_alloc_flag_out True ex_ctx 2))) 1 = Inl UninitRead \<and>
   flag_data (snd (dw_alloc_flag_out False ex_ctx 2)) = NullPtr \<and>
   l_flag (snd (dw_alloc_flag_out False ex_ctx 2)) = 2 \<and>
   flag_data (snd (dw_alloc_flag_out True ex_ctx (- 1))) = NullPtr \<and>
   l_flag (snd (dw_alloc_flag_out True ex_ctx (- 1))) = - 1"
proof -
  have a: "flag_data (snd (dw_alloc_flag_out True ex_ctx 2)) = Arr [Indeterminate, Indeterminate]"
    by (simp add: dw_alloc_flag_out_def malloc_def eval_nat_numeral)
  note t = dw_alloc_flag_out_slots_indeterminate
  from t [of True ex_ctx 2]
  have "arr_read (flag_data (snd (dw_alloc_flag_out True ex_ctx 2))) 1 = Inl UninitRead"
    and "l_flag (snd (dw_alloc_flag_out True ex_ctx 2)) = 2"
    and "fst (dw_alloc_flag_out True ex_ctx 2) = 0"
    by simp_all
  moreover from t [of False ex_ctx 2]
  have "flag_data (snd (dw_alloc_flag_out False ex_ctx 2)) = NullPtr"
    and "l_flag (snd (dw_alloc_flag_out False ex_ctx 2)) = 2"
    by simp_all
  moreover from t [of True ex_ctx "- 1"]
  have "flag_data (snd (dw_alloc_flag_out True ex_ctx (- 1))) = NullPtr"
    and "l_flag (snd (dw_alloc_flag_out True ex_ctx (- 1))) = - 1"
    by simp_all
  ultimately show ?thesis using a by simp
qed



section \<open>The product table and the labels are copied\<close>

lemma copy_ints_step:
  assumes "copy_ints dst src ii n = Inr dst'" and "ii < n" and "0 \<le> ii"
  obtains xs where "dst = Arr xs" and "ii < int (length xs)" and "ii < int (length src)"
    and "copy_ints (Arr (xs[nat ii := Init (src ! nat ii)])) src (ii + 1) n = Inr dst'"
proof -
  from assms obtain v dst1 where v: "src_read src ii = Inr v"
    and w: "arr_write dst ii v = Inr dst1" and rest: "copy_ints dst1 src (ii + 1) n = Inr dst'"
    by (subst (asm) copy_ints.simps) (auto split: sum.splits)
  from v assms(3) have "ii < int (length src)" "v = src ! nat ii"
    by (auto split: if_splits)
  moreover from w obtain xs where "dst = Arr xs" "ii < int (length xs)"
    "dst1 = Arr (xs[nat ii := Init v])"
    by (cases dst) (auto split: if_splits)
  ultimately show thesis using rest that by blast
qed

lemma copy_ints_done: "\<not> ii < n \<Longrightarrow> copy_ints dst src ii n = Inr dst"
  by (subst copy_ints.simps) simp

lemma copy_ints_result:
  assumes "copy_ints dst src ii n = Inr dst'" and "0 \<le> ii"
  shows "(\<forall>j. ii \<le> j \<and> j < n \<longrightarrow> arr_read dst' j = Inr (src ! nat j) \<and> j < int (length src)) \<and>
         (\<forall>j. j < ii \<longrightarrow> arr_read dst' j = arr_read dst j) \<and>
         (\<forall>xs. dst = Arr xs \<longrightarrow> (\<exists>ys. dst' = Arr ys \<and> length ys = length xs)) \<and>
         (dst = NullPtr \<longrightarrow> dst' = NullPtr)"
  using assms
proof (induction dst src ii n rule: copy_ints.induct)
  case (1 dst src ii n)
  show ?case
  proof (cases "ii < n")
    case True
    from "1.prems"(1) True "1.prems"(2) obtain xs where xs: "dst = Arr xs"
      "ii < int (length xs)" "ii < int (length src)"
      and rest: "copy_ints (Arr (xs[nat ii := Init (src ! nat ii)])) src (ii + 1) n = Inr dst'"
      by (rule copy_ints_step)
    let ?d = "Arr (xs[nat ii := Init (src ! nat ii)])"
    have sr: "src_read src ii = Inr (src ! nat ii)" using xs "1.prems"(2) by simp
    have aw: "arr_write dst ii (src ! nat ii) = Inr ?d" using xs "1.prems"(2) by simp
    have nxt: "0 \<le> ii + 1" using "1.prems"(2) by simp
    note ih = "1.IH" [OF True sr aw rest nxt]
    have here: "arr_read ?d ii = Inr (src ! nat ii)" using xs "1.prems"(2) by simp
    have other: "arr_read ?d j = arr_read dst j" if "j < ii" for j
      using that xs "1.prems"(2) by (auto simp: nth_list_update)
    have "arr_read dst' j = Inr (src ! nat j) \<and> j < int (length src)" if "ii \<le> j" "j < n" for j
    proof (cases "j = ii")
      case True
      with ih here xs show ?thesis by simp
    next
      case False
      with that ih show ?thesis by simp
    qed
    moreover have "arr_read dst' j = arr_read dst j" if "j < ii" for j
      using that ih other by simp
    moreover have "\<exists>ys. dst' = Arr ys \<and> length ys = length xs"
      using ih by simp
    ultimately show ?thesis using xs by simp
  next
    case False
    with "1.prems" have "dst' = dst" by (simp add: copy_ints_done)
    with False show ?thesis by auto
  qed
qed

lemma copy_ints_defined:
  assumes "dst = Arr xs" and "0 \<le> ii" and "n \<le> int (length xs)" and "n \<le> int (length src)"
  shows "\<exists>dst'. copy_ints dst src ii n = Inr dst'"
  using assms
proof (induction dst src ii n arbitrary: xs rule: copy_ints.induct)
  case (1 dst src ii n)
  show ?case
  proof (cases "ii < n")
    case True
    let ?d = "Arr (xs[nat ii := Init (src ! nat ii)])"
    have sr: "src_read src ii = Inr (src ! nat ii)" using True "1.prems" by simp
    have aw: "arr_write dst ii (src ! nat ii) = Inr ?d" using True "1.prems" by simp
    have "0 \<le> ii + 1" "n \<le> int (length (xs[nat ii := Init (src ! nat ii)]))"
      using "1.prems" by simp_all
    then have "\<exists>dst'. copy_ints ?d src (ii + 1) n = Inr dst'"
      by (rule "1.IH" [OF True sr aw refl _ _ "1.prems"(4)])
    then show ?thesis using True sr aw by (subst copy_ints.simps) simp
  next
    case False
    then show ?thesis by (simp add: copy_ints_done)
  qed
qed

lemma dw_set_flag_prod_Inr:
  assumes "dw_set_flag_prod ok1 ok2 s fp n ind = Inr (rc, s')"
  obtains prod labels where "copy_ints (malloc ok1 n) fp 0 n = Inr prod"
    and "copy_ints (malloc ok2 (l_flag s)) ind 0 (l_flag s) = Inr labels"
    and "s' = s\<lparr>flag_product := prod, l_flag_prod := n, flag_data_ind := labels\<rparr>"
    and "rc = 0"
  using assms unfolding dw_set_flag_prod_def Let_def ub_bind_Inr_iff by auto

text \<open>
  The call returns when both allocations are satisfied and the caller's arrays are as
  long as the loops read them.
\<close>

lemma dw_set_flag_prod_defined:
  assumes "ok1" and "ok2" and "0 \<le> n" and "n \<le> int (length fp)"
    and "0 \<le> l_flag s" and "l_flag s \<le> int (length ind)"
  shows "\<exists>s'. dw_set_flag_prod ok1 ok2 s fp n ind = Inr (0, s')"
proof -
  from assms obtain prod where p: "copy_ints (malloc ok1 n) fp 0 n = Inr prod"
    using copy_ints_defined [of "malloc ok1 n" "replicate (nat n) Indeterminate" 0 n fp]
    by (auto simp: malloc_def)
  from assms obtain labels where
    l: "copy_ints (malloc ok2 (l_flag s)) ind 0 (l_flag s) = Inr labels"
    using copy_ints_defined [of "malloc ok2 (l_flag s)"
        "replicate (nat (l_flag s)) Indeterminate" 0 "l_flag s" ind]
    by (auto simp: malloc_def)
  from p l show ?thesis by (simp add: dw_set_flag_prod_def)
qed

lemma dw_set_flag_prod_copies_returned:
  assumes "dw_set_flag_prod ok1 ok2 s fp n ind = Inr (rc, s')"
  shows "rc = 0 \<and> l_flag_prod s' = n \<and>
    (\<forall>p. 0 \<le> p \<and> p < n \<longrightarrow>
       arr_read (flag_product s') p = Inr (fp ! nat p) \<and> p < int (length fp)) \<and>
    (\<forall>i. 0 \<le> i \<and> i < l_flag s \<longrightarrow>
       arr_read (flag_data_ind s') i = Inr (ind ! nat i) \<and> i < int (length ind)) \<and>
    (0 < n \<longrightarrow> (\<exists>xs. flag_product s' = Arr xs \<and> int (length xs) = n)) \<and>
    (0 < l_flag s \<longrightarrow> (\<exists>ys. flag_data_ind s' = Arr ys \<and> int (length ys) = l_flag s)) \<and>
    l_flag s' = l_flag s \<and> flag_data s' = flag_data s \<and>
    data s' = data s \<and> rows s' = rows s \<and> cols s' = cols s"
proof -
  from assms obtain prod labels where p: "copy_ints (malloc ok1 n) fp 0 n = Inr prod"
    and l: "copy_ints (malloc ok2 (l_flag s)) ind 0 (l_flag s) = Inr labels"
    and s': "s' = s\<lparr>flag_product := prod, l_flag_prod := n, flag_data_ind := labels\<rparr>"
    and rc: "rc = 0"
    by (rule dw_set_flag_prod_Inr)
  note rp = copy_ints_result [OF p order_refl] and rl = copy_ints_result [OF l order_refl]
  have "\<exists>xs. prod = Arr xs \<and> int (length xs) = n" if "0 < n"
  proof -
    from rp that have "arr_read prod 0 = Inr (fp ! nat 0)" by simp
    then have "malloc ok1 n \<noteq> (NullPtr :: int carray)" using rp by auto
    then have "malloc ok1 n = (Arr (replicate (nat n) Indeterminate) :: int carray)"
      by (simp add: malloc_def split: if_splits)
    with rp that show ?thesis by auto
  qed
  moreover have "\<exists>ys. labels = Arr ys \<and> int (length ys) = l_flag s" if "0 < l_flag s"
  proof -
    from rl that have "arr_read labels 0 = Inr (ind ! nat 0)" by simp
    then have "malloc ok2 (l_flag s) \<noteq> (NullPtr :: int carray)" using rl by auto
    then have "malloc ok2 (l_flag s) = (Arr (replicate (nat (l_flag s)) Indeterminate) :: int carray)"
      by (simp add: malloc_def split: if_splits)
    with rl that show ?thesis by auto
  qed
  ultimately show ?thesis unfolding s' rc using rp rl by simp
qed

text \<open>
  C4. \<^verbatim>\<open>dw_set_flag_prod\<close> returns 0 when both allocations are satisfied and the
  caller's arrays hold \<open>l_flag_prod\<close> and \<open>l_flag\<close> values. Whenever it returns,
  \<^verbatim>\<open>l_flag_prod\<close> is the argument, entry \<open>p\<close> of the registry's product table is
  entry \<open>p\<close> of the caller's array for every \<open>p < l_flag_prod\<close>, and entry \<open>i\<close> of
  the label table is entry \<open>i\<close> of the caller's \<^verbatim>\<open>flag_data_ind\<close> for every
  \<open>i < l_flag\<close>, the slot count the registry had on entry, whatever \<open>l_flag_prod\<close>
  is; the new tables have these lengths and nothing else of the structure changes.
\<close>

theorem dw_set_flag_prod_copies:
  "(ok1 \<and> ok2 \<and> 0 \<le> n \<and> n \<le> int (length fp) \<and>
    0 \<le> l_flag s \<and> l_flag s \<le> int (length ind) \<longrightarrow>
      (\<exists>s'. dw_set_flag_prod ok1 ok2 s fp n ind = Inr (0, s'))) \<and>
   (\<forall>rc s'. dw_set_flag_prod ok1 ok2 s fp n ind = Inr (rc, s') \<longrightarrow>
      rc = 0 \<and> l_flag_prod s' = n \<and>
      (\<forall>p. 0 \<le> p \<and> p < n \<longrightarrow>
         arr_read (flag_product s') p = Inr (fp ! nat p) \<and> p < int (length fp)) \<and>
      (\<forall>i. 0 \<le> i \<and> i < l_flag s \<longrightarrow>
         arr_read (flag_data_ind s') i = Inr (ind ! nat i) \<and> i < int (length ind)) \<and>
      (0 < n \<longrightarrow> (\<exists>xs. flag_product s' = Arr xs \<and> int (length xs) = n)) \<and>
      (0 < l_flag s \<longrightarrow> (\<exists>ys. flag_data_ind s' = Arr ys \<and> int (length ys) = l_flag s)) \<and>
      l_flag s' = l_flag s \<and> flag_data s' = flag_data s \<and>
      data s' = data s \<and> rows s' = rows s \<and> cols s' = cols s)"
  using dw_set_flag_prod_defined [of ok1 ok2 n fp s ind]
    dw_set_flag_prod_copies_returned [of ok1 ok2 s fp n ind]
  by blast

theorem dw_set_flag_prod_copies_witness:
  "(0::int) \<le> 3 \<and> 3 \<le> int (length [- 1, 1, 0 :: int]) \<and>
   0 \<le> l_flag ex_ctx \<and> l_flag ex_ctx \<le> int (length [7, 8 :: int]) \<and>
   (\<exists>s'. dw_set_flag_prod True True ex_ctx [- 1, 1, 0] 3 [7, 8] = Inr (0, s')) \<and>
   dw_set_flag_prod True True ex_ctx [- 1, 1, 0] 3 [7, 8] =
     Inr (0, ex_ctx\<lparr>flag_product := Arr [Init (- 1), Init 1, Init 0], l_flag_prod := 3,
            flag_data_ind := Arr [Init 7, Init 8]\<rparr>) \<and>
   l_flag ex_ctx = 2 \<and>
   arr_read (Arr [Init (- 1), Init 1, Init (0::int)]) 2 = Inr ([- 1, 1, 0] ! nat 2) \<and>
   arr_read (Arr [Init 7, Init (8::int)]) 1 = Inr ([7, 8] ! nat 1)"
proof -
  have run: "dw_set_flag_prod True True ex_ctx [- 1, 1, 0] 3 [7, 8] =
     Inr (0, ex_ctx\<lparr>flag_product := Arr [Init (- 1), Init 1, Init 0], l_flag_prod := 3,
            flag_data_ind := Arr [Init 7, Init 8]\<rparr>)"
    by (simp add: dw_set_flag_prod_def malloc_def copy_ints.simps ex_ctx_def eval_nat_numeral)
  have l: "l_flag ex_ctx = 2" by (simp add: ex_ctx_def)
  note t = dw_set_flag_prod_copies [of True True 3 "[- 1, 1, 0]" ex_ctx "[7, 8]"]
  from t l have "\<exists>s'. dw_set_flag_prod True True ex_ctx [- 1, 1, 0] 3 [7, 8] = Inr (0, s')"
    by simp
  moreover from t [THEN conjunct2, rule_format, OF run] l
  have "arr_read (Arr [Init (- 1), Init 1, Init (0::int)]) 2 = Inr ([- 1, 1, 0] ! nat 2)"
    and "arr_read (Arr [Init 7, Init (8::int)]) 1 = Inr ([7, 8] ! nat 1)"
    by auto
  ultimately show ?thesis using run l by simp
qed

section \<open>The parity detector flags every column of its parity\<close>

lemma dw_even_odd_counts_returned:
  assumes "0 \<le> rows s" and "0 \<le> cols s"
    and "arr_read (flag_product s) 0 = Inr fp0" and "fp0 > - 1"
    and "arr_read (flag_product s) 1 = Inr fp1" and "fp1 > - 1"
    and "arr_read (flag_data s) fp0 = Inr (Addr a0)"
    and "arr_read (flag_data s) fp1 = Inr (Addr a1)"
    and "a0 \<noteq> a1"
    and "h a0 = Some b0" and "h a1 = Some b1" and "all_clear b0" and "all_clear b1"
    and "dw_even_odd s cs h = Inr (rc, h')"
  shows "\<exists>c0 c1. rc = 0 \<and> h' a0 = Some c0 \<and> h' a1 = Some c1 \<and>
           int (count_flagged c0) = rows s * ((cols s + 1) div 2) \<and>
           int (count_flagged c1) = rows s * (cols s div 2) \<and>
           both_flagged c0 c1 = 0 \<and>
           (\<forall>j. j < length c0 \<and> c0 ! j = 1 \<longleftrightarrow> pass_cell s 0 j) \<and>
           (\<forall>j. j < length c1 \<and> c1 ! j = 1 \<longleftrightarrow> pass_cell s 1 j)"
proof -
  note run = assms(14) and f0 = assms(3) and f1 = assms(5)
  have pm0: "product_matrix s 0 = Inr (Addr a0)" and pm1: "product_matrix s 1 = Inr (Addr a1)"
    using assms by (simp_all add: product_matrix_def)
  have cell0: "cell_at h' a0 j = (if pass_cell s 0 j then Some 1 else cell_at h a0 j)" for j
    unfolding dw_even_odd_cell [OF run f0 f1] using pm0 pm1 assms(4,6,9) by auto
  have cell1: "cell_at h' a1 j = (if pass_cell s 1 j then Some 1 else cell_at h a1 j)" for j
    unfolding dw_even_odd_cell [OF run f0 f1] using pm0 pm1 assms(4,6,9) by auto
  obtain c0 where c0: "h' a0 = Some c0" and "length c0 = length b0"
    and in0: "\<forall>j. j < length c0 \<and> c0 ! j = 1 \<longleftrightarrow> pass_cell s 0 j"
    by (rule flagged_matrix [OF dw_even_odd_size [OF run] cell0 assms(10,12)])
  obtain c1 where c1: "h' a1 = Some c1" and "length c1 = length b1"
    and in1: "\<forall>j. j < length c1 \<and> c1 ! j = 1 \<longleftrightarrow> pass_cell s 1 j"
    by (rule flagged_matrix [OF dw_even_odd_size [OF run] cell1 assms(11,13)])
  have "count_flagged c0 = card {j. pass_cell s 0 j}"
    unfolding count_flagged_card using in0 by simp
  also have "\<dots> = nat (rows s) * card {i \<in> {0..<cols s}. even (i - 0)}"
    by (rule card_pass_cell) simp
  also have "\<dots> = nat (rows s) * nat ((cols s + 1) div 2)"
    unfolding card_even_from_0 [OF assms(2)] ..
  finally have n0: "int (count_flagged c0) = rows s * ((cols s + 1) div 2)"
    using assms(1,2) by simp
  have "count_flagged c1 = card {j. pass_cell s 1 j}"
    unfolding count_flagged_card using in1 by simp
  also have "\<dots> = nat (rows s) * card {i \<in> {1..<cols s}. even (i - 1)}"
    by (rule card_pass_cell) simp
  also have "\<dots> = nat (rows s) * nat (cols s div 2)"
    unfolding card_even_from_1 [OF assms(2)] ..
  finally have n1: "int (count_flagged c1) = rows s * (cols s div 2)"
    using assms(1,2) by simp
  have "\<not> (x = 1 \<and> y = 1)" if "(x, y) \<in> set (zip c0 c1)" for x y
  proof
    assume xy: "x = 1 \<and> y = 1"
    from that obtain j where "c0 ! j = x" "c1 ! j = y" "j < length c0" "j < length c1"
      by (auto simp: in_set_zip)
    with xy in0 [rule_format, of j] in1 [rule_format, of j]
    have "pass_cell s 0 j" "pass_cell s 1 j" by blast+
    then show False by (rule pass_cells_disjoint)
  qed
  then have "filter (\<lambda>(x, y). x = 1 \<and> y = 1) (zip c0 c1) = []"
    by (auto simp: filter_empty_conv)
  then have "both_flagged c0 c1 = 0" by (simp add: both_flagged_def)
  moreover have "rc = 0" using run by (rule dw_even_odd_Inr)
  ultimately show ?thesis using c0 c1 n0 n1 in0 in1 by blast
qed

text \<open>
  C1. Let \<open>rows, cols \<ge> 0\<close>, both parity products be active, and their two slots hold
  each its own flag matrix (the addresses of two different buffers), all zero. Then
  \<^verbatim>\<open>dw_even_odd\<close> returns 0 when each of the two buffers has at least \<open>rows * cols\<close>
  cells and \<open>rows * cols\<close> and \<open>cols + 1\<close> are values of \<^verbatim>\<open>int\<close>; and whenever it
  returns, exactly \<open>rows * ceil(cols/2)\<close> cells are flagged in the matrix of product 0,
  those of columns 0, 2, 4, ..., exactly \<open>rows * floor(cols/2)\<close> in the matrix of
  product 1, those of columns 1, 3, 5, ..., and no offset is flagged in both.
\<close>

theorem dw_even_odd_counts:
  assumes "0 \<le> rows s" and "0 \<le> cols s"
    and "arr_read (flag_product s) 0 = Inr fp0" and "fp0 > - 1"
    and "arr_read (flag_product s) 1 = Inr fp1" and "fp1 > - 1"
    and "arr_read (flag_data s) fp0 = Inr (Addr a0)"
    and "arr_read (flag_data s) fp1 = Inr (Addr a1)"
    and "a0 \<noteq> a1"
    and "h a0 = Some b0" and "h a1 = Some b1" and "all_clear b0" and "all_clear b1"
  shows "(rows s * cols s \<le> int (length b0) \<and> rows s * cols s \<le> int (length b1) \<and>
          rows s * cols s \<le> INT_MAX \<and> cols s < INT_MAX \<longrightarrow>
            (\<exists>h'. dw_even_odd s cs h = Inr (0, h'))) \<and>
         (\<forall>rc h'. dw_even_odd s cs h = Inr (rc, h') \<longrightarrow>
            (\<exists>c0 c1. rc = 0 \<and> h' a0 = Some c0 \<and> h' a1 = Some c1 \<and>
               int (count_flagged c0) = rows s * ((cols s + 1) div 2) \<and>
               int (count_flagged c1) = rows s * (cols s div 2) \<and>
               both_flagged c0 c1 = 0 \<and>
               (\<forall>j. j < length c0 \<and> c0 ! j = 1 \<longleftrightarrow> pass_cell s 0 j) \<and>
               (\<forall>j. j < length c1 \<and> c1 ! j = 1 \<longleftrightarrow> pass_cell s 1 j)))"
proof (intro conjI impI allI)
  assume "rows s * cols s \<le> int (length b0) \<and> rows s * cols s \<le> int (length b1) \<and>
    rows s * cols s \<le> INT_MAX \<and> cols s < INT_MAX"
  moreover have "size_at h a0 = Some (length b0)" "size_at h a1 = Some (length b1)"
    using assms(10,11) by (simp_all add: size_at_def)
  ultimately show "\<exists>h'. dw_even_odd s cs h = Inr (0, h')"
    using assms(7,8) by (intro dw_even_odd_defined [OF assms(1,2) _ _ assms(3,5)]) auto
next
  fix rc h'
  assume "dw_even_odd s cs h = Inr (rc, h')"
  then show "\<exists>c0 c1. rc = 0 \<and> h' a0 = Some c0 \<and> h' a1 = Some c1 \<and>
      int (count_flagged c0) = rows s * ((cols s + 1) div 2) \<and>
      int (count_flagged c1) = rows s * (cols s div 2) \<and>
      both_flagged c0 c1 = 0 \<and>
      (\<forall>j. j < length c0 \<and> c0 ! j = 1 \<longleftrightarrow> pass_cell s 0 j) \<and>
      (\<forall>j. j < length c1 \<and> c1 ! j = 1 \<longleftrightarrow> pass_cell s 1 j)"
    by (rule dw_even_odd_counts_returned [OF assms])
qed

theorem dw_even_odd_counts_witness:
  "(0::int) \<le> rows ex_ctx \<and> 0 \<le> cols ex_ctx \<and>
   arr_read (flag_product ex_ctx) 0 = Inr 0 \<and> arr_read (flag_product ex_ctx) 1 = Inr 1 \<and>
   arr_read (flag_data ex_ctx) 0 = Inr (Addr 10) \<and> arr_read (flag_data ex_ctx) 1 = Inr (Addr 11) \<and>
   ex_mem 10 = Some [0, 0, 0, 0, 0, 0] \<and> ex_mem 11 = Some [0, 0, 0, 0, 0, 0] \<and>
   all_clear [0, 0, 0, 0, 0, 0] \<and>
   rows ex_ctx * cols ex_ctx \<le> int (length [0, 0, 0, 0, 0, 0 :: byte]) \<and>
   rows ex_ctx * cols ex_ctx \<le> INT_MAX \<and> cols ex_ctx < INT_MAX \<and>
   (\<exists>h'. dw_even_odd ex_ctx 0 ex_mem = Inr (0, h')) \<and>
   dw_even_odd ex_ctx 0 ex_mem =
     Inr (0, ex_mem(10 \<mapsto> [1, 0, 1, 1, 0, 1], 11 \<mapsto> [0, 1, 0, 0, 1, 0])) \<and>
   int (count_flagged [1, 0, 1, 1, 0, 1]) = 2 * ((3 + 1) div 2) \<and>
   int (count_flagged [0, 1, 0, 0, 1, 0]) = 2 * (3 div 2) \<and>
   both_flagged [1, 0, 1, 1, 0, 1] [0, 1, 0, 0, 1, 0] = 0"
proof -
  have pre: "0 \<le> rows ex_ctx" "0 \<le> cols ex_ctx"
    "arr_read (flag_product ex_ctx) 0 = Inr 0" "(0::int) > - 1"
    "arr_read (flag_product ex_ctx) 1 = Inr 1" "(1::int) > - 1"
    "arr_read (flag_data ex_ctx) 0 = Inr (Addr 10)" "arr_read (flag_data ex_ctx) 1 = Inr (Addr 11)"
    "(10::nat) \<noteq> 11" "all_clear [0, 0, 0, 0, 0, 0]"
    by (simp_all add: ex_ctx_def all_clear_def)
  have fit: "rows ex_ctx * cols ex_ctx \<le> int (length [0, 0, 0, 0, 0, 0 :: byte])"
    "rows ex_ctx * cols ex_ctx \<le> INT_MAX" "cols ex_ctx < INT_MAX"
    by (simp_all add: ex_ctx_def INT_MAX_def)
  note t = dw_even_odd_counts [OF pre(1-9) ex_mem_10 ex_mem_11 pre(10) pre(10), of 0]
  from t fit have "\<exists>h'. dw_even_odd ex_ctx 0 ex_mem = Inr (0, h')" by blast
  moreover from t ex_even_odd
  have "int (count_flagged [1, 0, 1, 1, 0, 1]) = rows ex_ctx * ((cols ex_ctx + 1) div 2) \<and>
    int (count_flagged [0, 1, 0, 0, 1, 0]) = rows ex_ctx * (cols ex_ctx div 2) \<and>
    both_flagged [1, 0, 1, 1, 0, 1] [0, 1, 0, 0, 1, 0] = 0"
    by auto
  ultimately show ?thesis using pre fit ex_mem_10 ex_mem_11 ex_even_odd by (simp add: ex_ctx_def)
qed

section \<open>The parity detector leaves an unselected product alone\<close>

text \<open>
  C5. When \<^verbatim>\<open>flag_product[k]\<close> is -1, a call of \<^verbatim>\<open>dw_even_odd\<close> writes nothing
  for product \<open>k\<close>: every buffer of the store that is not the matrix the other product
  is active on holds the same bytes after the call as before it. With both entries -1 the
  whole store is unchanged.
\<close>

theorem dw_even_odd_inactive_product_frame:
  assumes "dw_even_odd s cs h = Inr (rc, h')"
    and "arr_read (flag_product s) 0 = Inr fp0"
    and "arr_read (flag_product s) 1 = Inr fp1"
  shows "(fp0 = - 1 \<longrightarrow>
            (\<forall>a. \<not> (fp1 > - 1 \<and> product_matrix s 1 = Inr (Addr a)) \<longrightarrow> h' a = h a)) \<and>
         (fp1 = - 1 \<longrightarrow>
            (\<forall>a. \<not> (fp0 > - 1 \<and> product_matrix s 0 = Inr (Addr a)) \<longrightarrow> h' a = h a)) \<and>
         (fp0 = - 1 \<and> fp1 = - 1 \<longrightarrow> h' = h)"
proof -
  have same: "h' a = h a"
    if "\<not> (fp0 > - 1 \<and> product_matrix s 0 = Inr (Addr a))"
      and "\<not> (fp1 > - 1 \<and> product_matrix s 1 = Inr (Addr a))" for a
  proof (rule buf_eqI)
    show "size_at h' a = size_at h a" by (rule dw_even_odd_size [OF assms(1)])
  next
    fix j
    show "cell_at h' a j = cell_at h a j"
      unfolding dw_even_odd_cell [OF assms] using that by auto
  qed
  have "h' = h" if "fp0 = - 1" and "fp1 = - 1"
    using that by (intro ext same) simp_all
  moreover have "h' a = h a"
    if "fp0 = - 1" and "\<not> (fp1 > - 1 \<and> product_matrix s 1 = Inr (Addr a))" for a
    using that by (intro same) simp_all
  moreover have "h' a = h a"
    if "fp1 = - 1" and "\<not> (fp0 > - 1 \<and> product_matrix s 0 = Inr (Addr a))" for a
    using that by (intro same) simp_all
  ultimately show ?thesis by blast
qed

theorem dw_even_odd_inactive_product_frame_witness:
  "dw_even_odd (ex_ctx\<lparr>flag_product := Arr [Init (- 1), Init 0]\<rparr>) 0 ex_mem =
     Inr (0, ex_mem(10 \<mapsto> [0, 1, 0, 0, 1, 0])) \<and>
   arr_read (flag_product (ex_ctx\<lparr>flag_product := Arr [Init (- 1), Init 0]\<rparr>)) 0 = Inr (- 1) \<and>
   arr_read (flag_product (ex_ctx\<lparr>flag_product := Arr [Init (- 1), Init 0]\<rparr>)) 1 = Inr 0 \<and>
   (ex_mem(10 \<mapsto> [0, 1, 0, 0, 1, 0])) 11 = ex_mem 11 \<and>
   dw_even_odd (ex_ctx\<lparr>flag_product := Arr [Init 1, Init (- 1)]\<rparr>) 0 ex_mem =
     Inr (0, ex_mem(11 \<mapsto> [1, 0, 1, 1, 0, 1])) \<and>
   arr_read (flag_product (ex_ctx\<lparr>flag_product := Arr [Init 1, Init (- 1)]\<rparr>)) 0 = Inr 1 \<and>
   arr_read (flag_product (ex_ctx\<lparr>flag_product := Arr [Init 1, Init (- 1)]\<rparr>)) 1 = Inr (- 1) \<and>
   (ex_mem(11 \<mapsto> [1, 0, 1, 1, 0, 1])) 10 = ex_mem 10"
proof -
  let ?s = "ex_ctx\<lparr>flag_product := Arr [Init (- 1), Init 0]\<rparr>"
  let ?t = "ex_ctx\<lparr>flag_product := Arr [Init 1, Init (- 1)]\<rparr>"
  have s0: "arr_read (flag_product ?s) 0 = Inr (- 1)" and s1: "arr_read (flag_product ?s) 1 = Inr 0"
    and t0: "arr_read (flag_product ?t) 0 = Inr 1" and t1: "arr_read (flag_product ?t) 1 = Inr (- 1)"
    by simp_all
  have ps: "product_matrix ?s 1 = Inr (Addr 10)" and pt: "product_matrix ?t 0 = Inr (Addr 11)"
    by (simp_all add: product_matrix_def ex_ctx_def)
  from dw_even_odd_inactive_product_frame [OF ex_even_only s0 s1] ps
  have "(ex_mem(10 \<mapsto> [0, 1, 0, 0, 1, 0])) 11 = ex_mem 11" by simp
  moreover from dw_even_odd_inactive_product_frame [OF ex_odd_only t0 t1] pt
  have "(ex_mem(11 \<mapsto> [1, 0, 1, 1, 0, 1])) 10 = ex_mem 10" by simp
  ultimately show ?thesis using ex_even_only ex_odd_only s0 s1 t0 t1 by simp
qed

section \<open>The single-channel detector writes one column of slot 0\<close>

lemma dw_single_channel_flags_column_returned:
  assumes "0 \<le> channel" and "channel < cols s"
    and "dw_single_channel s channel h = Inr (rc, h')"
    and "arr_read (flag_data s) 0 = Inr (Addr a)" and "h a = Some buf"
  shows "rc = 0 \<and>
    (\<exists>buf'. h' a = Some buf' \<and> length buf' = length buf \<and>
       (\<forall>r. 0 \<le> r \<and> r < rows s \<longrightarrow>
          nat (r * cols s + channel) < length buf' \<and> buf' ! nat (r * cols s + channel) = 1) \<and>
       (\<forall>j<length buf. \<not> column_cell s channel j \<longrightarrow> buf' ! j = buf ! j)) \<and>
    (\<forall>b. b \<noteq> a \<longrightarrow> h' b = h b) \<and>
    dw_single_channel (s\<lparr>flag_product := fp, l_flag_prod := n\<rparr>) channel h = Inr (rc, h')"
proof -
  note run = assms(3)
  from dw_single_channel_size [OF run, of a] assms(5) obtain buf' where
    buf': "h' a = Some buf'" "length buf' = length buf"
    by (cases "h' a") (auto simp: size_at_def)
  have cell: "cell_at h' a j = (if column_cell s channel j then Some 1 else cell_at h a j)" for j
    unfolding dw_single_channel_cell [OF run] using assms(4) by simp
  have col: "nat (r * cols s + channel) < length buf' \<and> buf' ! nat (r * cols s + channel) = 1"
    if "0 \<le> r" and "r < rows s" for r
  proof -
    from that assms(1,2) have "0 \<le> r * cols s + channel" by simp
    then have "int (nat (r * cols s + channel)) = r * cols s + channel" by simp
    with that have "column_cell s channel (nat (r * cols s + channel))"
      unfolding column_cell_iff by blast
    with cell [of "nat (r * cols s + channel)"] buf' show ?thesis
      by (auto simp: cell_at_def split: if_splits)
  qed
  have rest: "buf' ! j = buf ! j" if "j < length buf" and "\<not> column_cell s channel j" for j
    using cell [of j] that buf' assms(5) by (simp add: cell_at_def)
  have frame: "h' b = h b" if "b \<noteq> a" for b
  proof (rule buf_eqI)
    show "size_at h' b = size_at h b" by (rule dw_single_channel_size [OF run])
  next
    fix j show "cell_at h' b j = cell_at h b j"
      unfolding dw_single_channel_cell [OF run] using that assms(4) by simp
  qed
  have "dw_single_channel (s\<lparr>flag_product := fp, l_flag_prod := n\<rparr>) channel h =
      dw_single_channel s channel h"
    by (simp add: dw_single_channel_def single_channel_rows_eq)
  with run dw_single_channel_Inr(2) [OF run] buf' col rest frame show ?thesis by auto
qed

text \<open>
  C9. \<^verbatim>\<open>dw_single_channel\<close> writes through \<^verbatim>\<open>flag_data[0]\<close> and never reads
  \<^verbatim>\<open>flag_product\<close>. For \<open>0 \<le> channel < cols\<close> and slot 0 holding the address of a
  buffer, it returns 0 when the buffer has at least \<open>rows * cols\<close> cells and
  \<open>rows * cols\<close> is a value of \<^verbatim>\<open>int\<close>; and whenever it returns, it has set cell
  \<open>(row, channel)\<close> of that matrix to 1 for every \<open>0 \<le> row < rows\<close>, has left every
  other cell of the matrix and every other buffer as it was, and returns the same
  whatever the product table holds.
\<close>

theorem dw_single_channel_flags_column:
  assumes "0 \<le> channel" and "channel < cols s"
    and "arr_read (flag_data s) 0 = Inr (Addr a)" and "h a = Some buf"
  shows "(rows s * cols s \<le> int (length buf) \<and> rows s * cols s \<le> INT_MAX \<longrightarrow>
            (\<exists>h'. dw_single_channel s channel h = Inr (0, h'))) \<and>
         (\<forall>rc h'. dw_single_channel s channel h = Inr (rc, h') \<longrightarrow>
            rc = 0 \<and>
            (\<exists>buf'. h' a = Some buf' \<and> length buf' = length buf \<and>
               (\<forall>r. 0 \<le> r \<and> r < rows s \<longrightarrow>
                  nat (r * cols s + channel) < length buf' \<and>
                  buf' ! nat (r * cols s + channel) = 1) \<and>
               (\<forall>j<length buf. \<not> column_cell s channel j \<longrightarrow> buf' ! j = buf ! j)) \<and>
            (\<forall>b. b \<noteq> a \<longrightarrow> h' b = h b) \<and>
            (\<forall>fp n. dw_single_channel (s\<lparr>flag_product := fp, l_flag_prod := n\<rparr>) channel h =
               Inr (rc, h')))"
proof (intro conjI impI allI)
  assume "rows s * cols s \<le> int (length buf) \<and> rows s * cols s \<le> INT_MAX"
  moreover have "size_at h a = Some (length buf)" using assms(4) by (simp add: size_at_def)
  ultimately show "\<exists>h'. dw_single_channel s channel h = Inr (0, h')"
    using assms(1-3) by (intro dw_single_channel_defined) auto
next
  fix rc h' fp n b
  assume run: "dw_single_channel s channel h = Inr (rc, h')"
  note r = dw_single_channel_flags_column_returned [OF assms(1,2) run assms(3,4)]
  from r show "rc = 0" by blast
  from r show "\<exists>buf'. h' a = Some buf' \<and> length buf' = length buf \<and>
      (\<forall>r. 0 \<le> r \<and> r < rows s \<longrightarrow>
         nat (r * cols s + channel) < length buf' \<and> buf' ! nat (r * cols s + channel) = 1) \<and>
      (\<forall>j<length buf. \<not> column_cell s channel j \<longrightarrow> buf' ! j = buf ! j)"
    by blast
  from r show "h' b = h b" if "b \<noteq> a" using that by blast
  from dw_single_channel_flags_column_returned [OF assms(1,2) run assms(3,4),
      where fp = fp and n = n]
  show "dw_single_channel (s\<lparr>flag_product := fp, l_flag_prod := n\<rparr>) channel h = Inr (rc, h')"
    by blast
qed

theorem dw_single_channel_flags_column_witness:
  "(0::int) \<le> 1 \<and> 1 < cols ex_ctx \<and>
   arr_read (flag_data ex_ctx) 0 = Inr (Addr 10) \<and> ex_mem 10 = Some [0, 0, 0, 0, 0, 0] \<and>
   rows ex_ctx * cols ex_ctx \<le> int (length [0, 0, 0, 0, 0, 0 :: byte]) \<and>
   rows ex_ctx * cols ex_ctx \<le> INT_MAX \<and>
   (\<exists>h'. dw_single_channel ex_ctx 1 ex_mem = Inr (0, h')) \<and>
   dw_single_channel ex_ctx 1 ex_mem = Inr (0, ex_mem(10 \<mapsto> [0, 1, 0, 0, 1, 0])) \<and>
   [0, 1, 0, 0, 1, 0] ! nat (0 * cols ex_ctx + 1) = (1 :: byte) \<and>
   [0, 1, 0, 0, 1, 0] ! nat (1 * cols ex_ctx + 1) = (1 :: byte) \<and>
   (ex_mem(10 \<mapsto> [0, 1, 0, 0, 1, 0])) 11 = ex_mem 11 \<and>
   dw_single_channel (ex_ctx\<lparr>flag_product := NullPtr, l_flag_prod := 0\<rparr>) 1 ex_mem =
     Inr (0, ex_mem(10 \<mapsto> [0, 1, 0, 0, 1, 0]))"
proof -
  have pre: "(0::int) \<le> 1" "1 < cols ex_ctx" "arr_read (flag_data ex_ctx) 0 = Inr (Addr 10)"
    by (simp_all add: ex_ctx_def)
  have fit: "rows ex_ctx * cols ex_ctx \<le> int (length [0, 0, 0, 0, 0, 0 :: byte])"
    "rows ex_ctx * cols ex_ctx \<le> INT_MAX"
    by (simp_all add: ex_ctx_def INT_MAX_def)
  note t = dw_single_channel_flags_column [where h = ex_mem and a = 10, OF pre ex_mem_10]
  from t [THEN conjunct1] fit have ex: "\<exists>h'. dw_single_channel ex_ctx 1 ex_mem = Inr (0, h')"
    by simp
  note r = t [THEN conjunct2, rule_format, OF ex_single_channel]
  from r [THEN conjunct2, THEN conjunct1]
  have col: "[0, 1, 0, 0, 1, 0] ! nat (0 * cols ex_ctx + 1) = (1 :: byte) \<and>
    [0, 1, 0, 0, 1, 0] ! nat (1 * cols ex_ctx + 1) = (1 :: byte)"
  proof (elim exE conjE)
    fix buf'
    assume "(ex_mem(10 \<mapsto> [0, 1, 0, 0, 1, 0])) 10 = Some buf'"
      and c: "\<forall>r. 0 \<le> r \<and> r < rows ex_ctx \<longrightarrow>
        nat (r * cols ex_ctx + 1) < length buf' \<and> buf' ! nat (r * cols ex_ctx + 1) = 1"
    then have "buf' = [0, 1, 0, 0, 1, 0]" by simp
    moreover have "(0::int) \<le> 0 \<and> 0 < rows ex_ctx" "(0::int) \<le> 1 \<and> 1 < rows ex_ctx"
      by (simp_all add: ex_ctx_def)
    ultimately show ?thesis using c [rule_format, of 0] c [rule_format, of 1] by simp
  qed
  from r [THEN conjunct2, THEN conjunct2, THEN conjunct2, rule_format,
      where fp = NullPtr and n = 0]
  have fp: "dw_single_channel (ex_ctx\<lparr>flag_product := NullPtr, l_flag_prod := 0\<rparr>) 1 ex_mem =
     Inr (0, ex_mem(10 \<mapsto> [0, 1, 0, 0, 1, 0]))" .
  from ex col fp show ?thesis using pre fit ex_single_channel ex_mem_10 by (simp add: ex_ctx_def)
qed

section \<open>Running a detector again changes nothing\<close>

text \<open>
  C7. A detector called a second time with the same arguments, on the store its first
  call left, returns the same status and leaves every flag matrix as the first call
  left it. This holds for \<^verbatim>\<open>dw_even_odd\<close> and for \<^verbatim>\<open>dw_single_channel\<close>, whatever
  the matrices held before the first call (all zero in particular).
\<close>

theorem detectors_idempotent:
  "(dw_even_odd s cs h = Inr (rc, h') \<longrightarrow> dw_even_odd s cs h' = Inr (rc, h')) \<and>
   (dw_single_channel s channel h = Inr (rc1, h1) \<longrightarrow>
      dw_single_channel s channel h1 = Inr (rc1, h1))"
  using dw_even_odd_again dw_single_channel_again by blast

theorem detectors_idempotent_witness:
  "dw_even_odd ex_ctx 0 ex_mem =
     Inr (0, ex_mem(10 \<mapsto> [1, 0, 1, 1, 0, 1], 11 \<mapsto> [0, 1, 0, 0, 1, 0])) \<and>
   dw_even_odd ex_ctx 0 (ex_mem(10 \<mapsto> [1, 0, 1, 1, 0, 1], 11 \<mapsto> [0, 1, 0, 0, 1, 0])) =
     Inr (0, ex_mem(10 \<mapsto> [1, 0, 1, 1, 0, 1], 11 \<mapsto> [0, 1, 0, 0, 1, 0])) \<and>
   dw_single_channel ex_ctx 1 ex_mem = Inr (0, ex_mem(10 \<mapsto> [0, 1, 0, 0, 1, 0])) \<and>
   dw_single_channel ex_ctx 1 (ex_mem(10 \<mapsto> [0, 1, 0, 0, 1, 0])) =
     Inr (0, ex_mem(10 \<mapsto> [0, 1, 0, 0, 1, 0]))"
  using detectors_idempotent [of ex_ctx 0 ex_mem 0 _ 1 0, THEN conjunct1, rule_format, OF ex_even_odd]
    detectors_idempotent [of ex_ctx 0 ex_mem 0 _ 1 0, THEN conjunct2, rule_format, OF ex_single_channel]
    ex_even_odd ex_single_channel
  by simp

section \<open>Flags are only ever set\<close>

text \<open>
  C10. The detectors \<^verbatim>\<open>dw_even_odd\<close> and \<^verbatim>\<open>dw_single_channel\<close> store no value but
  1: a cell of any buffer either keeps its byte or holds 1 after the call, so a cell that
  held 1 before the call holds 1 after it.
\<close>

theorem detectors_only_set_flags:
  "(dw_even_odd s cs h = Inr (rc, h') \<longrightarrow>
      (\<forall>a j. cell_at h' a j = cell_at h a j \<or> cell_at h' a j = Some 1) \<and>
      (\<forall>a j. cell_at h a j = Some 1 \<longrightarrow> cell_at h' a j = Some 1)) \<and>
   (dw_single_channel s channel h = Inr (rc1, h1) \<longrightarrow>
      (\<forall>a j. cell_at h1 a j = cell_at h a j \<or> cell_at h1 a j = Some 1) \<and>
      (\<forall>a j. cell_at h a j = Some 1 \<longrightarrow> cell_at h1 a j = Some 1))"
proof (intro conjI impI allI)
  fix a j
  assume run: "dw_even_odd s cs h = Inr (rc, h')"
  then obtain fp0 fp1 h1 where
    f0: "arr_read (flag_product s) 0 = Inr fp0" and f1: "arr_read (flag_product s) 1 = Inr fp1"
    and "(if fp0 > - 1 then even_odd_cols s 0 0 h else Inr h) = Inr h1"
    and "(if fp1 > - 1 then even_odd_cols s 1 1 h1 else Inr h1) = Inr h'"
    and "rc = 0"
    by (rule dw_even_odd_Inr)
  show "cell_at h' a j = cell_at h a j \<or> cell_at h' a j = Some 1"
    unfolding dw_even_odd_cell [OF run f0 f1] by simp
  show "cell_at h' a j = Some 1" if "cell_at h a j = Some 1"
    unfolding dw_even_odd_cell [OF run f0 f1] using that by simp
next
  fix a j
  assume run: "dw_single_channel s channel h = Inr (rc1, h1)"
  show "cell_at h1 a j = cell_at h a j \<or> cell_at h1 a j = Some 1"
    unfolding dw_single_channel_cell [OF run] by simp
  show "cell_at h1 a j = Some 1" if "cell_at h a j = Some 1"
    unfolding dw_single_channel_cell [OF run] using that by simp
qed

theorem detectors_only_set_flags_witness:
  "dw_even_odd ex_ctx 0 (ex_mem(10 \<mapsto> [1, 1, 0, 0, 0, 0])) =
     Inr (0, ex_mem(10 \<mapsto> [1, 1, 1, 1, 0, 1], 11 \<mapsto> [0, 1, 0, 0, 1, 0])) \<and>
   cell_at (ex_mem(10 \<mapsto> [1, 1, 0, 0, 0, 0])) 10 1 = Some 1 \<and>
   cell_at (ex_mem(10 \<mapsto> [1, 1, 1, 1, 0, 1], 11 \<mapsto> [0, 1, 0, 0, 1, 0])) 10 1 = Some 1 \<and>
   dw_single_channel ex_ctx 2 (ex_mem(10 \<mapsto> [1, 1, 0, 0, 0, 0])) =
     Inr (0, ex_mem(10 \<mapsto> [1, 1, 1, 0, 0, 1])) \<and>
   cell_at (ex_mem(10 \<mapsto> [1, 1, 1, 0, 0, 1])) 10 1 = Some 1"
proof -
  let ?m = "ex_mem(10 \<mapsto> [1, 1, 0, 0, 0, 0])"
  have m10: "?m 10 = Some [1, 1, 0, 0, 0, 0]" and m11: "?m 11 = Some [0, 0, 0, 0, 0, 0]"
    by (simp_all add: ex_mem_11)
  have r1: "dw_even_odd ex_ctx 0 ?m =
      Inr (0, ex_mem(10 \<mapsto> [1, 1, 1, 1, 0, 1], 11 \<mapsto> [0, 1, 0, 0, 1, 0]))"
    by (simp add: run_simps ex_mem_11)
  have r2: "dw_single_channel ex_ctx 2 ?m = Inr (0, ex_mem(10 \<mapsto> [1, 1, 1, 0, 0, 1]))"
    by (simp add: run_simps)
  have c: "cell_at ?m 10 1 = Some 1" by (simp add: cell_at_def)
  from detectors_only_set_flags [of ex_ctx 0 ?m 0 _ 2 0, THEN conjunct1, rule_format, OF r1]
  have "cell_at (ex_mem(10 \<mapsto> [1, 1, 1, 1, 0, 1], 11 \<mapsto> [0, 1, 0, 0, 1, 0])) 10 1 = Some 1"
    using c by blast
  moreover
  from detectors_only_set_flags [of ex_ctx 0 ?m 0 _ 2 0, THEN conjunct2, rule_format, OF r2]
  have "cell_at (ex_mem(10 \<mapsto> [1, 1, 1, 0, 0, 1])) 10 1 = Some 1"
    using c by blast
  ultimately show ?thesis using r1 r2 c by simp
qed

section \<open>The resampler writes indices\<close>

lemma c_mod_nonneg: "0 \<le> a \<Longrightarrow> 0 < b \<Longrightarrow> a \<le> INT_MAX \<Longrightarrow> c_mod a b = Inr (a mod b)"
  by (cases "a = 0") (auto simp: c_mod_def INT_MIN_def)

lemma resample_loop_done: "\<not> ii < len_out \<Longrightarrow> resample_loop rnd len_in x_out len_out ii = Inr x_out"
  by (subst resample_loop.simps) simp

lemma resample_loop_step:
  assumes "resample_loop rnd len_in x_out len_out ii = Inr out'" and "ii < len_out"
    and "0 \<le> ii" and "0 < len_in" and "rand_values rnd"
  shows "ii < int (length x_out)"
    and "resample_loop rnd len_in (x_out[nat ii := of_int (rnd (nat ii) mod len_in)]) len_out (ii + 1)
         = Inr out'"
proof -
  from assms(5) have "0 \<le> rnd (nat ii)" "rnd (nat ii) \<le> INT_MAX"
    by (simp_all add: rand_values_def)
  with assms(4) have m: "c_mod (rnd (nat ii)) len_in = Inr (rnd (nat ii) mod len_in)"
    by (simp add: c_mod_nonneg)
  from assms(1,2) m obtain x1 where
    w: "dbl_write x_out ii (of_int (rnd (nat ii) mod len_in)) = Inr x1"
    and rest: "resample_loop rnd len_in x1 len_out (ii + 1) = Inr out'"
    by (subst (asm) resample_loop.simps) (auto split: sum.splits)
  from w assms(3) show "ii < int (length x_out)" by (auto split: if_splits)
  from w rest show "resample_loop rnd len_in (x_out[nat ii := of_int (rnd (nat ii) mod len_in)])
      len_out (ii + 1) = Inr out'"
    by (auto split: if_splits)
qed

lemma resample_loop_result:
  assumes "resample_loop rnd len_in x_out len_out ii = Inr out'"
    and "0 \<le> ii" and "0 < len_in" and "rand_values rnd"
  shows "length out' = length x_out \<and>
    (\<forall>j. ii \<le> int j \<and> int j < len_out \<longrightarrow>
       j < length x_out \<and> out' ! j = of_int (rnd j mod len_in)) \<and>
    (\<forall>j. int j < ii \<or> len_out \<le> int j \<longrightarrow> out' ! j = x_out ! j)"
  using assms(1,2)
proof (induction "nat (len_out - ii)" arbitrary: ii x_out rule: less_induct)
  case less
  show ?case
  proof (cases "ii < len_out")
    case True
    let ?x = "x_out[nat ii := of_int (rnd (nat ii) mod len_in)]"
    note st = resample_loop_step [OF less.prems(1) True less.prems(2) assms(3,4)]
    have "nat (len_out - (ii + 1)) < nat (len_out - ii)" using True by simp
    moreover have "0 \<le> ii + 1" using less.prems(2) by simp
    ultimately have ih: "length out' = length ?x \<and>
      (\<forall>j. ii + 1 \<le> int j \<and> int j < len_out \<longrightarrow>
         j < length ?x \<and> out' ! j = of_int (rnd j mod len_in)) \<and>
      (\<forall>j. int j < ii + 1 \<or> len_out \<le> int j \<longrightarrow> out' ! j = ?x ! j)"
      using less.hyps [OF _ st(2)] by blast
    have "j < length x_out \<and> out' ! j = of_int (rnd j mod len_in)"
      if "ii \<le> int j" "int j < len_out" for j
    proof (cases "int j = ii")
      case True
      then have "nat ii = j" by simp
      with ih st(1) True show ?thesis by auto
    next
      case False
      with that ih show ?thesis by simp
    qed
    moreover have "out' ! j = x_out ! j" if "int j < ii \<or> len_out \<le> int j" for j
    proof -
      have "int (nat ii) = ii" using less.prems(2) by simp
      with that True have "j \<noteq> nat ii" by linarith
      moreover from that have "int j < ii + 1 \<or> len_out \<le> int j" by linarith
      with ih have "out' ! j = x_out[nat ii := of_int (rnd (nat ii) mod len_in)] ! j" by blast
      ultimately show ?thesis by simp
    qed
    ultimately show ?thesis using ih by simp
  next
    case False
    with less.prems have "out' = x_out" by (simp add: resample_loop_done)
    with False less.prems(2) show ?thesis by auto
  qed
qed

text \<open>
  The call returns when \<^verbatim>\<open>x_out\<close> has room for \<open>len_out\<close> values.
\<close>

lemma bootstrap_resample_defined:
  assumes "0 < len_in" and "rand_values rnd" and "len_out \<le> int (length x_out)"
  shows "\<exists>out'. bootstrap_resample rnd x_in len_in x_out len_out = Inr (0, out')"
proof -
  have "\<exists>out'. resample_loop rnd len_in x len_out ii = Inr out'"
    if "0 \<le> ii" and "len_out \<le> int (length x)" for ii x
    using that
  proof (induction "nat (len_out - ii)" arbitrary: ii x rule: less_induct)
    case less
    show ?case
    proof (cases "ii < len_out")
      case True
      from assms(2) have "0 \<le> rnd (nat ii)" "rnd (nat ii) \<le> INT_MAX"
        by (simp_all add: rand_values_def)
      with assms(1) have m: "c_mod (rnd (nat ii)) len_in = Inr (rnd (nat ii) mod len_in)"
        by (simp add: c_mod_nonneg)
      let ?x = "x[nat ii := of_int (rnd (nat ii) mod len_in)]"
      have w: "dbl_write x ii (of_int (rnd (nat ii) mod len_in)) = Inr ?x"
        using True less.prems by simp
      have "nat (len_out - (ii + 1)) < nat (len_out - ii)" using True by simp
      moreover have "0 \<le> ii + 1" "len_out \<le> int (length ?x)" using less.prems by simp_all
      ultimately obtain out' where "resample_loop rnd len_in ?x len_out (ii + 1) = Inr out'"
        using less.hyps [of "ii + 1" ?x] by blast
      with True m w show ?thesis by (subst resample_loop.simps) simp
    next
      case False
      then show ?thesis by (simp add: resample_loop_done)
    qed
  qed
  from this [of 0 x_out] assms(3) obtain out' where
    "resample_loop rnd len_in x_out len_out 0 = Inr out'" by auto
  then show ?thesis by (simp add: bootstrap_resample_def)
qed

lemma bootstrap_resample_indices_returned:
  assumes "0 < len_in" and "0 \<le> len_out" and "rand_values rnd"
    and "bootstrap_resample rnd x_in len_in x_out len_out = Inr (rc, out')"
  shows "rc = 0 \<and> length out' = length x_out \<and> nat len_out \<le> length x_out \<and>
    (\<forall>j<nat len_out. \<exists>v. out' ! j = of_int v \<and> 0 \<le> v \<and> v < len_in \<and> v = rnd j mod len_in) \<and>
    (\<forall>j. nat len_out \<le> j \<longrightarrow> out' ! j = x_out ! j)"
proof -
  from assms(4) have run: "resample_loop rnd len_in x_out len_out 0 = Inr out'" and rc: "rc = 0"
    unfolding bootstrap_resample_def ub_bind_Inr_iff by auto
  note r = resample_loop_result [OF run order_refl assms(1,3)]
  have w: "j < length x_out \<and> out' ! j = of_int (rnd j mod len_in)" if "j < nat len_out" for j
    using r that by simp
  have "nat len_out \<le> length x_out"
  proof (cases "len_out = 0")
    case False
    with assms(2) have less: "nat len_out - 1 < nat len_out" by simp
    from w [OF less] have "nat len_out - 1 < length x_out" ..
    with less show ?thesis by linarith
  qed simp
  moreover have "\<exists>v. out' ! j = of_int v \<and> 0 \<le> v \<and> v < len_in \<and> v = rnd j mod len_in"
    if "j < nat len_out" for j
    using w [OF that] assms(1) by simp
  moreover have "out' ! j = x_out ! j" if "nat len_out \<le> j" for j
    using r that by simp
  ultimately show ?thesis using r rc by simp
qed

text \<open>
  C6. For \<open>len_in > 0\<close> and \<open>len_out \<ge> 0\<close>, with \<^verbatim>\<open>rand()\<close> returning values in
  \<open>[0, INT_MAX]\<close>, \<^verbatim>\<open>bootstrap_resample\<close> returns 0 when \<^verbatim>\<open>x_out\<close> has room for
  \<open>len_out\<close> values; and whenever it returns, it has written the first \<open>len_out\<close>
  elements of \<^verbatim>\<open>x_out\<close>, each with an integer of \<open>[0, len_in)\<close> (the \<open>j\<close>-th value
  of \<^verbatim>\<open>rand()\<close> modulo \<open>len_in\<close>), and no other element.
\<close>

theorem bootstrap_resample_indices:
  assumes "0 < len_in" and "0 \<le> len_out" and "rand_values rnd"
  shows "(len_out \<le> int (length x_out) \<longrightarrow>
            (\<exists>out'. bootstrap_resample rnd x_in len_in x_out len_out = Inr (0, out'))) \<and>
         (\<forall>rc out'. bootstrap_resample rnd x_in len_in x_out len_out = Inr (rc, out') \<longrightarrow>
            rc = 0 \<and> length out' = length x_out \<and> nat len_out \<le> length x_out \<and>
            (\<forall>j<nat len_out. \<exists>v. out' ! j = of_int v \<and> 0 \<le> v \<and> v < len_in \<and>
               v = rnd j mod len_in) \<and>
            (\<forall>j. nat len_out \<le> j \<longrightarrow> out' ! j = x_out ! j))"
  using bootstrap_resample_defined [OF assms(1,3), of len_out x_out x_in]
    bootstrap_resample_indices_returned [OF assms, of x_in x_out]
  by blast

theorem bootstrap_resample_indices_witness:
  "(0::int) < 4 \<and> (0::int) \<le> 2 \<and>
   rand_values (\<lambda>k. if k = 0 then 5 else if k = 1 then 12 else 7) \<and>
   2 \<le> int (length [9, 9, 9 :: real]) \<and>
   (\<exists>out'. bootstrap_resample (\<lambda>k. if k = 0 then 5 else if k = 1 then 12 else 7) [] 4
      [9, 9, 9] 2 = Inr (0, out')) \<and>
   bootstrap_resample (\<lambda>k. if k = 0 then 5 else if k = 1 then 12 else 7) [] 4 [9, 9, 9] 2 =
     Inr (0, [1, 0, 9]) \<and>
   [1, 0, 9 :: real] ! 0 = of_int (5 mod 4) \<and> [1, 0, 9 :: real] ! 1 = of_int (12 mod 4) \<and>
   [1, 0, 9 :: real] ! 2 = [9, 9, 9] ! 2"
proof -
  let ?rnd = "\<lambda>k :: nat. if k = 0 then 5 else if k = 1 then 12 else (7 :: int)"
  have rv: "rand_values ?rnd" by (simp add: rand_values_def INT_MAX_def)
  have run: "bootstrap_resample ?rnd [] 4 [9, 9, 9] 2 = Inr (0, [1, 0, 9])"
    by (simp add: bootstrap_resample_def resample_loop.simps c_mod_def INT_MIN_def)
  have pre: "(0::int) < 4" "(0::int) \<le> 2" by simp_all
  note t = bootstrap_resample_indices [OF pre rv, of "[9, 9, 9]" "[]"]
  from t have "\<exists>out'. bootstrap_resample ?rnd [] 4 [9, 9, 9] 2 = Inr (0, out')" by simp
  moreover from t [THEN conjunct2, rule_format, OF run]
  have "[1, 0, 9 :: real] ! 0 = of_int (5 mod 4)" "[1, 0, 9 :: real] ! 1 = of_int (12 mod 4)"
    "[1, 0, 9 :: real] ! 2 = [9, 9, 9] ! 2"
    by simp_all
  ultimately show ?thesis using rv run by simp
qed

end
